theory Spec2Isabelle
  imports Main "HOL-Library.Sublist" "HOL-Library.Multiset"
begin

section \<open>Characters and strings\<close>

text \<open>
  Python strings are sequences of Unicode code points. The model uses \<^typ>\<open>string\<close>, whose
  characters are the code points below 256 (ASCII and the Latin-1 supplement); the tables below
  give Python's \<^verbatim>\<open>\w\<close>, \<^verbatim>\<open>\s\<close> and \<^verbatim>\<open>str.lower\<close> on that range. Text with code
  points beyond 255 is outside the model.
\<close>

definition code :: "char \<Rightarrow> nat" where
  "code c = of_char c"

definition is_upper :: "char \<Rightarrow> bool" where
  "is_upper c = (65 \<le> code c \<and> code c \<le> 90)"

definition is_lower :: "char \<Rightarrow> bool" where
  "is_lower c = (97 \<le> code c \<and> code c \<le> 122)"

definition is_digit :: "char \<Rightarrow> bool" where
  "is_digit c = (48 \<le> code c \<and> code c \<le> 57)"

definition latin1_alnum :: "char \<Rightarrow> bool" where
  "latin1_alnum c =
     (code c = 0xAA \<or> code c = 0xB2 \<or> code c = 0xB3 \<or> code c = 0xB5 \<or> code c = 0xB9 \<or>
      code c = 0xBA \<or> (0xBC \<le> code c \<and> code c \<le> 0xBE) \<or> (0xC0 \<le> code c \<and> code c \<le> 0xD6) \<or>
      (0xD8 \<le> code c \<and> code c \<le> 0xF6) \<or> 0xF8 \<le> code c)"

definition is_word :: "char \<Rightarrow> bool" where
  \<comment> \<open>\<^verbatim>\<open>\w\<close> of a \<^verbatim>\<open>str\<close> pattern: alphanumeric or underscore\<close>
  "is_word c = (is_upper c \<or> is_lower c \<or> is_digit c \<or> c = CHR ''_'' \<or> latin1_alnum c)"

definition is_space :: "char \<Rightarrow> bool" where
  \<comment> \<open>\<^verbatim>\<open>\s\<close> and \<^verbatim>\<open>str.isspace\<close>\<close>
  "is_space c =
     ((9 \<le> code c \<and> code c \<le> 13) \<or> (0x1C \<le> code c \<and> code c \<le> 0x20) \<or>
      code c = 0x85 \<or> code c = 0xA0)"

definition lower_char :: "char \<Rightarrow> char" where
  "lower_char c =
     (if is_upper c \<or> (0xC0 \<le> code c \<and> code c \<le> 0xDE \<and> code c \<noteq> 0xD7)
      then char_of (code c + 32) else c)"

definition lower :: "string \<Rightarrow> string" where
  "lower s = map lower_char s"

definition newline :: string where
  "newline = [CHR 0x0A]"

definition digit_char :: "nat \<Rightarrow> char" where
  "digit_char d = char_of (48 + d)"

function show_nat :: "nat \<Rightarrow> string" where
  "show_nat n = (if n < 10 then [digit_char n] else show_nat (n div 10) @ [digit_char (n mod 10)])"
  by pat_completeness auto
termination
  by (relation "measure id") auto

declare show_nat.simps [simp del]

definition pad2 :: "nat \<Rightarrow> string" where
  \<comment> \<open>a zero-padded two-digit field of \<^verbatim>\<open>strftime\<close>\<close>
  "pad2 n = (if n < 10 then CHR ''0'' # show_nat n else show_nat n)"

fun split_on :: "char \<Rightarrow> string \<Rightarrow> string list" where
  "split_on c [] = [[]]"
| "split_on c (x # xs) =
     (if x = c then [] # split_on c xs
      else (case split_on c xs of [] \<Rightarrow> [[x]] | w # ws \<Rightarrow> (x # w) # ws))"

fun join :: "string \<Rightarrow> string list \<Rightarrow> string" where
  "join sep [] = []"
| "join sep [x] = x"
| "join sep (x # y # ys) = x @ sep @ join sep (y # ys)"

section \<open>Regular expressions as Python's backtracking matcher runs them\<close>

text \<open>
  The patterns of the scripts are sequences of atoms: a literal character, a greedy repetition
  of a character class with a lower bound (\<^verbatim>\<open>[...]+\<close> is \<open>AtLeast 1\<close>, \<^verbatim>\<open>[...]{2,}\<close> is
  \<open>AtLeast 2\<close>), the word boundary \<^verbatim>\<open>\b\<close>, and the anchors \<^verbatim>\<open>^\<close>, \<^verbatim>\<open>$\<close> and end of
  string. The matcher sees the character before the current position (\<open>None\<close> at the start of
  the string) and the rest of the string, and returns the number of characters the match
  consumed. A greedy repetition takes the longest run of class characters and gives characters
  back one at a time until the rest of the pattern matches.
\<close>

datatype atom = Lit char | AtLeast nat "char \<Rightarrow> bool" | WordB | Bol | Eol | Eos

definition word_boundary :: "char option \<Rightarrow> string \<Rightarrow> bool" where
  "word_boundary p s =
     ((case p of None \<Rightarrow> False | Some c \<Rightarrow> is_word c) \<noteq>
      (case s of [] \<Rightarrow> False | c # _ \<Rightarrow> is_word c))"

fun first_down :: "(nat \<Rightarrow> 'a option) \<Rightarrow> nat \<Rightarrow> nat \<Rightarrow> 'a option" where
  "first_down f n 0 = (if n = 0 then f 0 else None)"
| "first_down f n (Suc k) =
     (if Suc k < n then None
      else case f (Suc k) of Some r \<Rightarrow> Some r | None \<Rightarrow> first_down f n k)"

definition prev_after :: "char option \<Rightarrow> string \<Rightarrow> nat \<Rightarrow> char option" where
  "prev_after p s k = (if k = 0 then p else Some (s ! (k - 1)))"

fun bt :: "atom list \<Rightarrow> char option \<Rightarrow> string \<Rightarrow> nat option" where
  "bt [] p s = Some 0"
| "bt (Lit c # r) p s =
     (case s of [] \<Rightarrow> None
      | x # xs \<Rightarrow> if x = c then map_option Suc (bt r (Some x) xs) else None)"
| "bt (AtLeast n P # r) p s =
     first_down (\<lambda>k. map_option ((+) k) (bt r (prev_after p s k) (drop k s)))
       n (length (takeWhile P s))"
| "bt (WordB # r) p s = (if word_boundary p s then bt r p s else None)"
| "bt (Bol # r) p s = (if p = None then bt r p s else None)"
| "bt (Eol # r) p s = (if s = [] \<or> s = newline then bt r p s else None)"
| "bt (Eos # r) p s = (if s = [] then bt r p s else None)"

text \<open>
  \<^verbatim>\<open>re.findall\<close> scans from the left: at each position it tries the pattern, collects the
  match and goes on after it, or moves one character on. (After an empty match the scan moves
  one character on; the patterns here never match the empty string.)
\<close>

function findall_from :: "atom list \<Rightarrow> char option \<Rightarrow> string \<Rightarrow> string list" where
  "findall_from pat p [] = (case bt pat p [] of None \<Rightarrow> [] | Some n \<Rightarrow> [[]])"
| "findall_from pat p (x # xs) =
     (case bt pat p (x # xs) of
        None \<Rightarrow> findall_from pat (Some x) xs
      | Some n \<Rightarrow>
          take n (x # xs) #
          findall_from pat (Some ((x # xs) ! (max 1 n - 1))) (drop (max 1 n) (x # xs)))"
  by pat_completeness auto
termination
  by (relation "measure (\<lambda>(pat, p, s). length s)") auto

definition findall :: "atom list \<Rightarrow> string \<Rightarrow> string list" where
  "findall pat s = findall_from pat None s"

definition re_match :: "atom list \<Rightarrow> string \<Rightarrow> bool" where
  \<comment> \<open>the truth value of \<^verbatim>\<open>re.match(pat, s)\<close>: a match starting at the first character\<close>
  "re_match pat s = (bt pat None s \<noteq> None)"

definition fullmatch :: "atom list \<Rightarrow> string \<Rightarrow> bool" where
  \<comment> \<open>the truth value of \<^verbatim>\<open>re.fullmatch(pat, s)\<close>: the match must end at the end of \<open>s\<close>\<close>
  "fullmatch pat s = (bt (pat @ [Eos]) None s \<noteq> None)"

section \<open>The email patterns\<close>

definition local_class :: "char \<Rightarrow> bool" where
  \<comment> \<open>\<^verbatim>\<open>[A-Za-z0-9._%+-]\<close>\<close>
  "local_class c = (is_upper c \<or> is_lower c \<or> is_digit c \<or> c \<in> set ''._%+-'')"

definition domain_class :: "char \<Rightarrow> bool" where
  \<comment> \<open>\<^verbatim>\<open>[A-Za-z0-9.-]\<close>\<close>
  "domain_class c = (is_upper c \<or> is_lower c \<or> is_digit c \<or> c \<in> set ''.-'')"

definition tld_class :: "char \<Rightarrow> bool" where
  \<comment> \<open>\<^verbatim>\<open>[A-Z|a-z]\<close>: inside a class the bar is a literal character\<close>
  "tld_class c = (is_upper c \<or> c = CHR ''|'' \<or> is_lower c)"

definition strict_tld_class :: "char \<Rightarrow> bool" where
  \<comment> \<open>\<^verbatim>\<open>[a-zA-Z]\<close>\<close>
  "strict_tld_class c = (is_lower c \<or> is_upper c)"

definition email_pattern :: "atom list" where
  \<comment> \<open>\<^verbatim>\<open>\b[A-Za-z0-9._%+-]+@[A-Za-z0-9.-]+\.[A-Z|a-z]{2,}\b\<close>\<close>
  "email_pattern =
     [WordB, AtLeast 1 local_class, Lit CHR ''@'', AtLeast 1 domain_class, Lit CHR ''.'',
      AtLeast 2 tld_class, WordB]"

definition strict_pattern :: "atom list" where
  \<comment> \<open>\<^verbatim>\<open>^[a-zA-Z0-9._%+-]+@[a-zA-Z0-9.-]+\.[a-zA-Z]{2,}$\<close>\<close>
  "strict_pattern =
     [Bol, AtLeast 1 local_class, Lit CHR ''@'', AtLeast 1 domain_class, Lit CHR ''.'',
      AtLeast 2 strict_tld_class, Eol]"

subsection \<open>Deduplication and validation\<close>

text \<open>The loop over \<^verbatim>\<open>found_emails\<close>, with the list \<^verbatim>\<open>emails\<close> and the set \<^verbatim>\<open>seen\<close>.\<close>

fun dedupe_loop :: "string list \<Rightarrow> string list \<Rightarrow> string set \<Rightarrow> string list" where
  "dedupe_loop [] emails seen = emails"
| "dedupe_loop (email # rest) emails seen =
     (if lower email \<notin> seen
      then dedupe_loop rest (emails @ [email]) (insert (lower email) seen)
      else dedupe_loop rest emails seen)"

definition dedupe :: "string list \<Rightarrow> string list" where
  "dedupe found_emails = dedupe_loop found_emails [] {}"

record validation =
  valid :: "string list"
  invalid :: "string list"
  total_valid :: nat
  total_invalid :: nat

fun validate_loop :: "string list \<Rightarrow> string list \<Rightarrow> string list \<Rightarrow> string list \<times> string list" where
  "validate_loop [] valid_emails invalid_emails = (valid_emails, invalid_emails)"
| "validate_loop (email # rest) valid_emails invalid_emails =
     (if re_match strict_pattern email
      then validate_loop rest (valid_emails @ [email]) invalid_emails
      else validate_loop rest valid_emails (invalid_emails @ [email]))"

definition validate_emails :: "string list \<Rightarrow> validation" where
  "validate_emails email_list =
     (case validate_loop email_list [] [] of
        (valid_emails, invalid_emails) \<Rightarrow>
          \<lparr>valid = valid_emails, invalid = invalid_emails,
           total_valid = length valid_emails, total_invalid = length invalid_emails\<rparr>)"

section \<open>Paths\<close>

text \<open>
  A \<^verbatim>\<open>pathlib.Path\<close> on a POSIX system is its tuple of parts: the root (\<open>/\<close>, or \<open>//\<close> for
  exactly two leading slashes) when the path is absolute, then the components, with empty
  components and single dots dropped. The empty tuple is the current directory, printed as
  a dot.
\<close>

type_synonym path = "string list"

definition splitroot :: "string \<Rightarrow> string \<times> string" where
  "splitroot s =
     (if s \<noteq> [] \<and> hd s = CHR ''/''
      then (let stripped = dropWhile (\<lambda>c. c = CHR ''/'') s
            in if length s - length stripped = 2 then (''//'', stripped) else (''/'', stripped))
      else ([], s))"

definition Path :: "string \<Rightarrow> path" where
  "Path s =
     (case splitroot s of
        (root, rel) \<Rightarrow>
          (if root = [] then [] else [root]) @
          filter (\<lambda>x. x \<noteq> [] \<and> x \<noteq> ''.'') (split_on CHR ''/'' rel))"

definition has_root :: "path \<Rightarrow> bool" where
  "has_root p = (case p of [] \<Rightarrow> False | x # _ \<Rightarrow> x = ''/'' \<or> x = ''//'')"

definition str_path :: "path \<Rightarrow> string" where
  \<comment> \<open>\<^verbatim>\<open>str(path)\<close>\<close>
  "str_path p =
     (if p = [] then ''.''
      else if has_root p then hd p @ join ''/'' (tl p)
      else join ''/'' p)"

definition parent :: "path \<Rightarrow> path" where
  "parent p = (if length p = 1 \<and> has_root p then p else butlast p)"

definition path_name :: "path \<Rightarrow> string" where
  \<comment> \<open>\<^verbatim>\<open>path.name\<close>\<close>
  "path_name p = (if length p = (if has_root p then 1 else 0) then [] else last p)"

definition joinpath :: "path \<Rightarrow> string \<Rightarrow> path" where
  \<comment> \<open>\<^verbatim>\<open>path / key\<close>\<close>
  "joinpath p key = (let q = Path key in if has_root q then q else p @ q)"

section \<open>Exceptions\<close>

datatype exn_kind =
    FileNotFoundError | FileExistsError | IsADirectoryError | NotADirectoryError
  | FileNameTooLong | ShutilError | ValueError
  | ReadTimeout | ConnectTimeout | RequestsConnectionError | OtherRequestException
  | OtherException

definition is_OSError :: "exn_kind \<Rightarrow> bool" where
  \<comment> \<open>the classes below \<^verbatim>\<open>OSError\<close>; a name that is too long is a plain \<^verbatim>\<open>OSError\<close> (errno 36)\<close>
  "is_OSError k =
     (k = FileNotFoundError \<or> k = FileExistsError \<or> k = IsADirectoryError \<or>
      k = NotADirectoryError \<or> k = FileNameTooLong)"

text \<open>An exception is its class and the text that \<^verbatim>\<open>str(e)\<close> gives.\<close>

datatype exn = Exn exn_kind string

fun str_exn :: "exn \<Rightarrow> string" where
  "str_exn (Exn k msg) = msg"

fun kind_of :: "exn \<Rightarrow> exn_kind" where
  "kind_of (Exn k msg) = k"

definition os_error :: "exn_kind \<Rightarrow> string \<Rightarrow> path \<Rightarrow> exn" where
  "os_error k what p = Exn k (what @ '': '' @ [CHR 0x27] @ str_path p @ [CHR 0x27])"

section \<open>The file system\<close>

text \<open>
  The file system is an association list from paths to nodes, in directory-listing order. A
  path resolves only when every proper ancestor is a directory; the current directory and the
  roots always are. Paths are looked up as written (no symbolic links, no \<open>..\<close>, relative
  paths are not resolved against an absolute working directory), there are no permissions,
  and a file holds its decoded text (decoding with \<^verbatim>\<open>errors='ignore'\<close> never fails).
\<close>

datatype node = Dir | File string

type_synonym filesystem = "(path \<times> node) list"

definition is_anchor :: "path \<Rightarrow> bool" where
  "is_anchor p = (p = [] \<or> (length p = 1 \<and> has_root p))"

definition dir_entry :: "filesystem \<Rightarrow> path \<Rightarrow> bool" where
  "dir_entry fs q = (is_anchor q \<or> map_of fs q = Some Dir)"

definition node_at :: "filesystem \<Rightarrow> path \<Rightarrow> node option" where
  "node_at fs p =
     (if is_anchor p then Some Dir
      else if list_all (dir_entry fs) (map (\<lambda>k. take k p) [0..<length p]) then map_of fs p
      else None)"

subsection \<open>Paths the system refuses\<close>

text \<open>
  Every system call on a path first fails on a path it cannot take, as Linux does: a path
  with a null character is a \<^verbatim>\<open>ValueError\<close> in Python itself; a path of 4096 bytes or more,
  or a part of more than 255 bytes that is looked up in an existing directory, is
  \<^verbatim>\<open>OSError\<close> 36 (file name too long). A long part below a missing directory is not
  reached: the call fails there with the missing directory. Bytes are those of UTF-8.
\<close>

definition utf8_length :: "string \<Rightarrow> nat" where
  "utf8_length s = sum_list (map (\<lambda>c. if code c < 128 then 1 else 2) s)"

definition has_nul :: "path \<Rightarrow> bool" where
  "has_nul p = list_ex (\<lambda>n. CHR 0x00 \<in> set n) p"

definition long_name_hit :: "filesystem \<Rightarrow> path \<Rightarrow> bool" where
  "long_name_hit fs p =
     list_ex (\<lambda>k. node_at fs (take k p) = Some Dir \<and> 255 < utf8_length (p ! k)) [0..<length p]"

definition access_error :: "filesystem \<Rightarrow> path \<Rightarrow> exn option" where
  "access_error fs p =
     (if has_nul p then Some (Exn ValueError ''embedded null byte'')
      else if 4096 \<le> utf8_length (str_path p) \<or> long_name_hit fs p
      then Some (os_error FileNameTooLong ''[Errno 36] File name too long'' p)
      else None)"

text \<open>
  \<^verbatim>\<open>Path.exists()\<close> and \<^verbatim>\<open>Path.is_dir()\<close> call \<^verbatim>\<open>stat\<close>; they answer \<open>False\<close> for a missing
  path and for a \<^verbatim>\<open>ValueError\<close>, and let every other error through.
\<close>

definition path_exists :: "filesystem \<Rightarrow> path \<Rightarrow> exn + bool" where
  "path_exists fs p =
     (case access_error fs p of
        Some e \<Rightarrow> if kind_of e = ValueError then Inr False else Inl e
      | None \<Rightarrow> Inr (node_at fs p \<noteq> None))"

definition path_is_dir :: "filesystem \<Rightarrow> path \<Rightarrow> exn + bool" where
  "path_is_dir fs p =
     (case access_error fs p of
        Some e \<Rightarrow> if kind_of e = ValueError then Inr False else Inl e
      | None \<Rightarrow> Inr (node_at fs p = Some Dir))"

subsection \<open>Reading and writing\<close>

definition create_node :: "path \<Rightarrow> node \<Rightarrow> filesystem \<Rightarrow> filesystem" where
  \<comment> \<open>a new entry at the end of the listing; stale entries at or below the path are dropped\<close>
  "create_node p n fs = filter (\<lambda>e. \<not> prefix p (fst e)) fs @ [(p, n)]"

definition replace_node :: "path \<Rightarrow> node \<Rightarrow> filesystem \<Rightarrow> filesystem" where
  "replace_node p n fs = map (\<lambda>e. if fst e = p then (p, n) else e) fs"

text \<open>
  Reading in text mode with the default \<^verbatim>\<open>newline=None\<close> turns every carriage return, with
  the line feed after it if there is one, into a line feed. Writing in text mode on POSIX
  writes the text as it is.
\<close>

fun universal_newlines :: "string \<Rightarrow> string" where
  "universal_newlines [] = []"
| "universal_newlines [c] = (if c = CHR 0x0D then [CHR 0x0A] else [c])"
| "universal_newlines (c # d # cs) =
     (if c = CHR 0x0D
      then (if d = CHR 0x0A then CHR 0x0A # universal_newlines cs
            else CHR 0x0A # universal_newlines (d # cs))
      else c # universal_newlines (d # cs))"

definition read_text :: "filesystem \<Rightarrow> path \<Rightarrow> exn + string" where
  \<comment> \<open>\<^verbatim>\<open>open(p, 'r')\<close> and \<^verbatim>\<open>read()\<close>\<close>
  "read_text fs p =
     (case access_error fs p of
        Some e \<Rightarrow> Inl e
      | None \<Rightarrow>
          (case node_at fs p of
             None \<Rightarrow> Inl (os_error FileNotFoundError ''[Errno 2] No such file or directory'' p)
           | Some Dir \<Rightarrow> Inl (os_error IsADirectoryError ''[Errno 21] Is a directory'' p)
           | Some (File content) \<Rightarrow> Inr (universal_newlines content)))"

definition write_text :: "filesystem \<Rightarrow> path \<Rightarrow> string \<Rightarrow> exn + filesystem" where
  \<comment> \<open>\<^verbatim>\<open>open(p, 'w')\<close>, the writes, and the close\<close>
  "write_text fs p content =
     (case access_error fs p of
        Some e \<Rightarrow> Inl e
      | None \<Rightarrow>
          (case node_at fs p of
             Some Dir \<Rightarrow> Inl (os_error IsADirectoryError ''[Errno 21] Is a directory'' p)
           | Some (File old) \<Rightarrow> Inr (replace_node p (File content) fs)
           | None \<Rightarrow>
               (case node_at fs (parent p) of
                  Some Dir \<Rightarrow> Inr (create_node p (File content) fs)
                | Some (File other) \<Rightarrow>
                    Inl (os_error NotADirectoryError ''[Errno 20] Not a directory'' p)
                | None \<Rightarrow>
                    Inl (os_error FileNotFoundError ''[Errno 2] No such file or directory'' p))))"

subsection \<open>Making directories\<close>

definition os_mkdir :: "filesystem \<Rightarrow> path \<Rightarrow> exn + filesystem" where
  "os_mkdir fs p =
     (case access_error fs p of
        Some e \<Rightarrow> Inl e
      | None \<Rightarrow>
          (case node_at fs p of
             Some n \<Rightarrow> Inl (os_error FileExistsError ''[Errno 17] File exists'' p)
           | None \<Rightarrow>
               (case node_at fs (parent p) of
                  Some Dir \<Rightarrow> Inr (create_node p Dir fs)
                | Some (File other) \<Rightarrow>
                    Inl (os_error NotADirectoryError ''[Errno 20] Not a directory'' p)
                | None \<Rightarrow>
                    Inl (os_error FileNotFoundError ''[Errno 2] No such file or directory'' p))))"

text \<open>
  \<^verbatim>\<open>Path.mkdir(parents=True, exist_ok=True)\<close>, as pathlib writes it: try \<^verbatim>\<open>os.mkdir\<close>; on
  \<^verbatim>\<open>FileNotFoundError\<close> make the parent first and then the directory itself (without
  \<^verbatim>\<open>parents\<close>); on any other \<^verbatim>\<open>OSError\<close> succeed only when \<^verbatim>\<open>is_dir()\<close> says the path is a
  directory. The result is the file system when the call ends, and the error if it raised:
  the parents made before a failure stay.
\<close>

definition exist_ok_check :: "filesystem \<Rightarrow> path \<Rightarrow> exn \<Rightarrow> filesystem \<times> exn option" where
  \<comment> \<open>\<^verbatim>\<open>if not exist_ok or not self.is_dir(): raise\<close>, with \<^verbatim>\<open>exist_ok\<close> true\<close>
  "exist_ok_check fs p e =
     (case path_is_dir fs p of
        Inl e' \<Rightarrow> (fs, Some e')
      | Inr True \<Rightarrow> (fs, None)
      | Inr False \<Rightarrow> (fs, Some e))"

definition mkdir_exist_ok :: "filesystem \<Rightarrow> path \<Rightarrow> filesystem \<times> exn option" where
  \<comment> \<open>\<^verbatim>\<open>self.mkdir(mode, parents=False, exist_ok=True)\<close>\<close>
  "mkdir_exist_ok fs p =
     (case os_mkdir fs p of
        Inr fs' \<Rightarrow> (fs', None)
      | Inl e \<Rightarrow>
          if kind_of e = FileNotFoundError then (fs, Some e)
          else if is_OSError (kind_of e) then exist_ok_check fs p e
          else (fs, Some e))"

function path_mkdir :: "filesystem \<Rightarrow> path \<Rightarrow> filesystem \<times> exn option" where
  "path_mkdir fs p =
     (case os_mkdir fs p of
        Inr fs' \<Rightarrow> (fs', None)
      | Inl e \<Rightarrow>
          if kind_of e = FileNotFoundError then
            (if parent p = p then (fs, Some e)
             else (case path_mkdir fs (parent p) of
                     (fs', Some e') \<Rightarrow> (fs', Some e')
                   | (fs', None) \<Rightarrow> mkdir_exist_ok fs' p))
          else if is_OSError (kind_of e) then exist_ok_check fs p e
          else (fs, Some e))"
  by pat_completeness auto
termination
proof (relation "measure (\<lambda>(fs, p). length p)")
  show "wf (measure (\<lambda>(fs, p). length p))"
    by simp
next
  fix fs :: filesystem and p :: path and e :: exn
  assume "parent p \<noteq> p"
  then have "p \<noteq> []" "parent p = butlast p"
    by (auto simp: parent_def split: if_splits)
  then show "((fs, parent p), (fs, p)) \<in> measure (\<lambda>(fs, p). length p)"
    by (cases p rule: rev_cases) auto
qed

declare path_mkdir.simps [simp del]

section \<open>The world a script runs in\<close>

record datetime =
  year :: nat
  month :: nat
  day :: nat
  hour :: nat
  minute :: nat
  second :: nat

definition strftime_compact :: "datetime \<Rightarrow> string" where
  \<comment> \<open>\<^verbatim>\<open>strftime("%Y%m%d_%H%M%S")\<close>, for a year of four digits\<close>
  "strftime_compact t =
     show_nat (year t) @ pad2 (month t) @ pad2 (day t) @ ''_'' @
     pad2 (hour t) @ pad2 (minute t) @ pad2 (second t)"

definition strftime_long :: "datetime \<Rightarrow> string" where
  \<comment> \<open>\<^verbatim>\<open>strftime("%Y-%m-%d %H:%M:%S")\<close>\<close>
  "strftime_long t =
     show_nat (year t) @ ''-'' @ pad2 (month t) @ ''-'' @ pad2 (day t) @ '' '' @
     pad2 (hour t) @ '':'' @ pad2 (minute t) @ '':'' @ pad2 (second t)"

text \<open>
  The state a call reads and changes: the file system, the lines printed so far, and the
  HTTP requests sent so far (URL and timeout).
\<close>

record world =
  files :: filesystem
  console :: "string list"
  requests_sent :: "(string \<times> int) list"

definition print_line :: "string \<Rightarrow> world \<Rightarrow> world" where
  "print_line msg w = w\<lparr>console := console w @ [msg]\<rparr>"

section \<open>extract\_emails\_from\_text\<close>

text \<open>
  The two readings of the clock (for the generated file name, and for the report) are
  arguments. The result is the world after the call and either the returned pair or the
  exception that leaves the function: the existence check stands before the \<^verbatim>\<open>try\<close> block,
  so an error of the check itself reaches the caller.
\<close>

definition output_path_of :: "datetime \<Rightarrow> string \<Rightarrow> string option \<Rightarrow> path" where
  "output_path_of now1 input_file output_file =
     (case output_file of
        None \<Rightarrow>
          joinpath (parent (Path input_file))
            (''extracted_emails_'' @ strftime_compact now1 @ ''.txt'')
      | Some f \<Rightarrow> Path f)"

definition separator_line :: string where
  "separator_line = replicate 50 CHR ''-''"

definition report_text :: "string \<Rightarrow> datetime \<Rightarrow> string list \<Rightarrow> string" where
  "report_text input_file now2 emails =
     ''Email addresses extracted from: '' @ input_file @ newline @
     ''Extraction date: '' @ strftime_long now2 @ newline @
     ''Total unique emails found: '' @ show_nat (length emails) @ newline @
     separator_line @ newline @ newline @
     concat (map (\<lambda>(i, email). show_nat i @ ''. '' @ email @ newline) (enumerate 1 emails))"

type_synonym extract_result = "exn + string list \<times> string option"

definition processing_error :: "exn \<Rightarrow> world \<Rightarrow> world \<times> extract_result" where
  \<comment> \<open>the handler \<^verbatim>\<open>except Exception as e\<close>\<close>
  "processing_error e w =
     (print_line (''Error processing file: '' @ str_exn e) w, Inr ([], None))"

definition extract_emails_from_text ::
  "datetime \<Rightarrow> datetime \<Rightarrow> string \<Rightarrow> string option \<Rightarrow> world \<Rightarrow> world \<times> extract_result" where
  "extract_emails_from_text now1 now2 input_file output_file w =
     (let input_path = Path input_file in
      case path_exists (files w) input_path of
        Inl e \<Rightarrow> (w, Inl e)
      | Inr False \<Rightarrow>
          (print_line (''Error: Input file '' @ [CHR 0x27] @ input_file @ [CHR 0x27] @
             '' does not exist.'') w, Inr ([], None))
      | Inr True \<Rightarrow>
          let output_path = output_path_of now1 input_file output_file;
              w1 = print_line (''Reading file: '' @ input_file) w
          in case read_text (files w1) input_path of
               Inl e \<Rightarrow> processing_error e w1
             | Inr content \<Rightarrow>
                 let found_emails = findall email_pattern content;
                     emails = dedupe found_emails;
                     w2 = print_line (''Found '' @ show_nat (length found_emails) @
                            '' email addresses ('' @ show_nat (length emails) @ '' unique)'') w1
                 in if emails \<noteq> [] then
                      (case path_mkdir (files w2) (parent output_path) of
                         (fs3, Some e) \<Rightarrow> processing_error e (w2\<lparr>files := fs3\<rparr>)
                       | (fs3, None) \<Rightarrow>
                           (case write_text fs3 output_path
                                   (report_text input_file now2 emails) of
                              Inl e \<Rightarrow> processing_error e (w2\<lparr>files := fs3\<rparr>)
                            | Inr fs4 \<Rightarrow>
                                let w5 = print_line
                                           (''Emails saved to: '' @ str_path output_path)
                                           (w2\<lparr>files := fs4\<rparr>);
                                    w6 = print_line (newline @ ''Extracted emails:'') w5;
                                    w7 = fold (\<lambda>(i, email).
                                           print_line (''  '' @ show_nat i @ ''. '' @ email))
                                           (enumerate 1 emails) w6
                                in (w7, Inr (emails, Some (str_path output_path)))))
                    else (print_line ''No email addresses found in the file.'' w2,
                          Inr (emails, Some (str_path output_path))))"

subsection \<open>Reading the report back\<close>

text \<open>
  The report is a header, a separator line of fifty dashes, an empty line and the enumerated
  listing, one entry to a line: a decimal number, a dot, a space and the entry. Re-parsing
  the report for its enumerated lines reads the listing, that is the lines after the last
  separator line, and returns the entries of the lines of that form, in order.
\<close>

definition parse_enumerated_line :: "string \<Rightarrow> string option" where
  "parse_enumerated_line line =
     (let digits = takeWhile is_digit line; rest = dropWhile is_digit line
      in if digits \<noteq> [] \<and> take 2 rest = ''. '' then Some (drop 2 rest) else None)"

definition listing_lines :: "string list \<Rightarrow> string list" where
  "listing_lines ls = rev (takeWhile (\<lambda>l. l \<noteq> separator_line) (rev ls))"

definition parse_report :: "string \<Rightarrow> string list" where
  "parse_report content =
     List.map_filter parse_enumerated_line (listing_lines (split_on CHR 0x0A content))"

text \<open>
  The first occurrences of a sequence under case-insensitive comparison: the entries whose
  lower-case form does not occur earlier, in order.
\<close>

definition first_occurrences :: "string list \<Rightarrow> string list" where
  "first_occurrences raw =
     map (\<lambda>i. raw ! i)
       (filter (\<lambda>i. lower (raw ! i) \<notin> set (map lower (take i raw))) [0..<length raw])"

section \<open>scrape\_webpage\_title\<close>

text \<open>
  The library calls whose results the script does not control are parameters: \<open>urlparse\<close>
  gives the scheme and the network location of a URL or raises, and \<open>http_get\<close> gives the
  response to \<^verbatim>\<open>requests.get(url, headers=..., timeout=timeout)\<close> or raises; \<open>script_root\<close> is
  the directory two levels above the script file.
\<close>

record parsed_url =
  scheme :: string
  netloc :: string

record response =
  status_code :: nat
  page_text :: string

record web =
  urlparse :: "string \<Rightarrow> exn + parsed_url"
  http_get :: "string \<Rightarrow> int \<Rightarrow> exn + response"
  script_root :: path

text \<open>The classes of \<^verbatim>\<open>requests.exceptions\<close>: a connect timeout is both a timeout and a
  connection error, and all of them are request exceptions.\<close>

definition is_Timeout :: "exn_kind \<Rightarrow> bool" where
  "is_Timeout k = (k = ReadTimeout \<or> k = ConnectTimeout)"

definition is_ConnectionError :: "exn_kind \<Rightarrow> bool" where
  "is_ConnectionError k = (k = ConnectTimeout \<or> k = RequestsConnectionError)"

definition is_RequestException :: "exn_kind \<Rightarrow> bool" where
  "is_RequestException k = (is_Timeout k \<or> is_ConnectionError k \<or> k = OtherRequestException)"

definition show_int :: "int \<Rightarrow> string" where
  "show_int i = (if i < 0 then ''-'' @ show_nat (nat (- i)) else show_nat (nat i))"

subsection \<open>The title pattern\<close>

text \<open>
  \<^verbatim>\<open>re.search(r'<title[^>]*>(.*?)</title>', text, re.IGNORECASE | re.DOTALL)\<close>, written out:
  at the leftmost position where \<^verbatim>\<open><title\<close> stands (in any letter case), the greedy
  \<^verbatim>\<open>[^>]*\<close> runs to the next \<^verbatim>\<open>>\<close> (it can match nothing else before it), and the lazy
  group then takes the shortest text that is followed by \<^verbatim>\<open></title>\<close>. A position where
  this fails is given up and the search moves one character on. The result is the group.
\<close>

definition istarts_with :: "string \<Rightarrow> string \<Rightarrow> bool" where
  "istarts_with lit s = (length lit \<le> length s \<and> lower (take (length lit) s) = lit)"

fun find_close :: "string \<Rightarrow> string option" where
  "find_close [] = None"
| "find_close (c # cs) =
     (if istarts_with ''</title>'' (c # cs) then Some []
      else map_option ((#) c) (find_close cs))"

definition match_title_at :: "string \<Rightarrow> string option" where
  "match_title_at s =
     (if istarts_with ''<title'' s
      then (case dropWhile (\<lambda>c. c \<noteq> CHR ''>'') (drop 6 s) of
              [] \<Rightarrow> None
            | c # cs \<Rightarrow> find_close cs)
      else None)"

fun title_search :: "string \<Rightarrow> string option" where
  "title_search [] = None"
| "title_search (c # cs) =
     (case match_title_at (c # cs) of Some g \<Rightarrow> Some g | None \<Rightarrow> title_search cs)"

subsection \<open>Cleaning the title\<close>

definition strip :: "string \<Rightarrow> string" where
  "strip s = rev (dropWhile is_space (rev (dropWhile is_space s)))"

function collapse_spaces :: "string \<Rightarrow> string" where
  \<comment> \<open>\<^verbatim>\<open>re.sub(r'\s+', ' ', s)\<close>\<close>
  "collapse_spaces [] = []"
| "collapse_spaces (c # cs) =
     (if is_space c then CHR '' '' # collapse_spaces (dropWhile is_space cs)
      else c # collapse_spaces cs)"
  by pat_completeness auto
termination
  by (relation "measure length") (auto simp: length_dropWhile_le less_Suc_eq_le)

function replace_all :: "string \<Rightarrow> string \<Rightarrow> string \<Rightarrow> string" where
  \<comment> \<open>\<^verbatim>\<open>s.replace(old, new)\<close> for a non-empty \<open>old\<close>\<close>
  "replace_all old new [] = []"
| "replace_all old new (c # cs) =
     (if old \<noteq> [] \<and> prefix old (c # cs)
      then new @ replace_all old new (drop (length old) (c # cs))
      else c # replace_all old new cs)"
  by pat_completeness auto
termination
  by (relation "measure (\<lambda>(old, new, s). length s)") auto

definition clean_title :: "string \<Rightarrow> string" where
  "clean_title g =
     replace_all ''&quot;'' [CHR 0x22]
       (replace_all ''&gt;'' ''>''
          (replace_all ''&lt;'' ''<''
             (replace_all ''&amp;'' ''&'' (collapse_spaces (strip g)))))"

definition safe_domain :: "string \<Rightarrow> string" where
  \<comment> \<open>\<^verbatim>\<open>re.sub(r'[^\w\-_\.]', '_', netloc)\<close>\<close>
  "safe_domain n = map (\<lambda>c. if is_word c \<or> c \<in> set ''-_.'' then c else CHR ''_'') n"

definition word_count :: "string \<Rightarrow> nat" where
  \<comment> \<open>\<^verbatim>\<open>len(s.split())\<close>: the number of places where a word starts\<close>
  "word_count s = length (filter (\<lambda>(p, c). is_space p \<and> \<not> is_space c) (zip (CHR '' '' # s) s))"

definition title_report :: "string \<Rightarrow> datetime \<Rightarrow> nat \<Rightarrow> string \<Rightarrow> string \<Rightarrow> string" where
  "title_report url now2 status domain title =
     ''Webpage Title Extraction Report'' @ newline @
     replicate 40 CHR ''='' @ newline @ newline @
     ''URL: '' @ url @ newline @
     ''Scraped on: '' @ strftime_long now2 @ newline @
     ''HTTP Status: '' @ show_nat status @ newline @
     ''Domain: '' @ domain @ newline @
     replicate 40 CHR ''-'' @ newline @ newline @
     ''Title: '' @ title @ newline @ newline @
     ''Title length: '' @ show_nat (length title) @ '' characters'' @ newline @
     ''Title word count: '' @ show_nat (word_count title) @ newline"

subsection \<open>The function\<close>

type_synonym scrape_result = "string option \<times> string option \<times> nat option"

text \<open>
  The body of the \<^verbatim>\<open>try\<close> block: the world when it ends, and the returned triple or the
  exception raised. The call to \<^verbatim>\<open>requests.get\<close> is recorded in \<open>requests_sent\<close>.
\<close>

definition scrape_body ::
  "web \<Rightarrow> datetime \<Rightarrow> datetime \<Rightarrow> string \<Rightarrow> string option \<Rightarrow> int \<Rightarrow> world \<Rightarrow>
   world \<times> (exn + scrape_result)" where
  "scrape_body env now1 now2 url output_file timeout w =
     (case urlparse env url of
        Inl e \<Rightarrow> (w, Inl e)
      | Inr parsed \<Rightarrow>
          if scheme parsed = [] \<or> netloc parsed = []
          then (print_line (''Error: Invalid URL format: '' @ url) w, Inr (None, None, None))
          else
            let w1 = print_line (''Scraping webpage: '' @ url) w;
                w2 = w1\<lparr>requests_sent := requests_sent w1 @ [(url, timeout)]\<rparr>
            in case http_get env url timeout of
                 Inl e \<Rightarrow> (w2, Inl e)
               | Inr resp \<Rightarrow>
                   if status_code resp = 200 then
                     (case title_search (page_text resp) of
                        Some g \<Rightarrow>
                          let title = clean_title g;
                              w3 = print_line (''Title found: '' @ title) w2;
                              out = (case output_file of
                                       None \<Rightarrow>
                                         joinpath (joinpath (script_root env) ''output'')
                                           (''webpage_title_'' @ safe_domain (netloc parsed) @
                                            ''_'' @ strftime_compact now1 @ ''.txt'')
                                     | Some f \<Rightarrow> Path f)
                          in (case path_mkdir (files w3) (parent out) of
                                (fs4, Some e) \<Rightarrow> (w3\<lparr>files := fs4\<rparr>, Inl e)
                              | (fs4, None) \<Rightarrow>
                                  (case write_text fs4 out
                                          (title_report url now2 (status_code resp)
                                             (netloc parsed) title) of
                                     Inl e \<Rightarrow> (w3\<lparr>files := fs4\<rparr>, Inl e)
                                   | Inr fs5 \<Rightarrow>
                                       (print_line (''Title saved to: '' @ str_path out)
                                          (w3\<lparr>files := fs5\<rparr>),
                                        Inr (Some title, Some (str_path out),
                                             Some (status_code resp)))))
                      | None \<Rightarrow>
                          (print_line ''Error: No title tag found in the webpage'' w2,
                           Inr (None, None, Some (status_code resp))))
                   else
                     (print_line (''Error: HTTP '' @ show_nat (status_code resp) @
                        '' - Failed to fetch the webpage'') w2,
                      Inr (None, None, Some (status_code resp))))"

text \<open>The \<^verbatim>\<open>except\<close> clauses, in the order of the source: the first whose class fits runs.\<close>

definition scrape_webpage_title ::
  "web \<Rightarrow> datetime \<Rightarrow> datetime \<Rightarrow> string \<Rightarrow> string option \<Rightarrow> int \<Rightarrow> world \<Rightarrow>
   world \<times> scrape_result" where
  "scrape_webpage_title env now1 now2 url output_file timeout w =
     (case scrape_body env now1 now2 url output_file timeout w of
        (w', Inr r) \<Rightarrow> (w', r)
      | (w', Inl e) \<Rightarrow>
          if is_Timeout (kind_of e) then
            (print_line (''Error: Request timed out after '' @ show_int timeout @ '' seconds'') w',
             None, None, None)
          else if is_ConnectionError (kind_of e) then
            (print_line ''Error: Connection failed. Check your internet connection or URL.'' w',
             None, None, None)
          else if is_RequestException (kind_of e) then
            (print_line (''Error: Request failed - '' @ str_exn e) w', None, None, None)
          else
            (print_line (''Unexpected error: '' @ str_exn e) w', None, None, None))"

text \<open>
  What a failed fetch leaves behind: the two lines printed, the request recorded, and an
  unchanged file system.
\<close>

definition after_request :: "world \<Rightarrow> string \<Rightarrow> int \<Rightarrow> string \<Rightarrow> world \<Rightarrow> bool" where
  "after_request w url timeout line w' \<longleftrightarrow>
     console w' = console w @ [''Scraping webpage: '' @ url, line] \<and>
     files w' = files w \<and>
     requests_sent w' = requests_sent w @ [(url, timeout)]"

text \<open>
  An environment for examples: every URL parses to the scheme and the network location
  given, and every request has the outcome given.
\<close>

definition example_web :: "string \<Rightarrow> string \<Rightarrow> exn + response \<Rightarrow> web" where
  "example_web s n outcome =
     \<lparr>urlparse = (\<lambda>url. Inr \<lparr>scheme = s, netloc = n\<rparr>),
      http_get = (\<lambda>url timeout. outcome),
      script_root = [''repo'']\<rparr>"

section \<open>move\_jpg\_files\<close>

text \<open>
  A directory listing gives the entries directly below a directory whose last part is a file
  name (not empty, at most 255 bytes, no slash, no null character, neither \<open>.\<close> nor \<open>..\<close>),
  in listing order. \<^verbatim>\<open>Path.glob("*.jpg")\<close> asks \<^verbatim>\<open>is_dir()\<close> first and gives nothing for a path
  that is not a directory; otherwise it keeps the names that end in \<^verbatim>\<open>.jpg\<close>, letter case as
  written (POSIX).
\<close>

definition valid_name :: "string \<Rightarrow> bool" where
  "valid_name n =
     (n \<noteq> [] \<and> utf8_length n \<le> 255 \<and> CHR ''/'' \<notin> set n \<and> CHR 0x00 \<notin> set n \<and>
      n \<noteq> ''.'' \<and> n \<noteq> ''..'')"

definition children :: "filesystem \<Rightarrow> path \<Rightarrow> path list" where
  "children fs d =
     filter (\<lambda>q. q \<noteq> [] \<and> butlast q = d \<and> valid_name (last q) \<and> node_at fs q \<noteq> None)
       (remdups (map fst fs))"

definition glob :: "filesystem \<Rightarrow> path \<Rightarrow> string \<Rightarrow> exn + path list" where
  \<comment> \<open>\<open>glob fs d ext\<close> is \<^verbatim>\<open>list(d.glob("*" + ext))\<close>\<close>
  "glob fs d ext =
     (case path_is_dir fs d of
        Inl e \<Rightarrow> Inl e
      | Inr False \<Rightarrow> Inr []
      | Inr True \<Rightarrow> Inr (filter (\<lambda>q. suffix ext (last q)) (children fs d)))"

fun glob_all :: "filesystem \<Rightarrow> path \<Rightarrow> string list \<Rightarrow> exn + path list" where
  \<comment> \<open>the lists of several patterns, concatenated from left to right\<close>
  "glob_all fs d [] = Inr []"
| "glob_all fs d (ext # exts) =
     (case glob fs d ext of
        Inl e \<Rightarrow> Inl e
      | Inr found \<Rightarrow>
          (case glob_all fs d exts of
             Inl e \<Rightarrow> Inl e
           | Inr others \<Rightarrow> Inr (found @ others)))"

text \<open>
  \<^verbatim>\<open>shutil.move(src, dst)\<close> for a destination that does not exist, which is how the loop
  calls it: \<^verbatim>\<open>os.rename\<close> re-roots the entry and everything below it. The rename fails on a
  path the system refuses, when the source is missing, when the destination lies inside the
  source, or when the destination's directory is missing; the fall-back copy of
  \<^verbatim>\<open>shutil.move\<close> fails in the same cases. An existing destination is outside what the loop
  does and is given as an error.
\<close>

definition rename_tree :: "path \<Rightarrow> path \<Rightarrow> filesystem \<Rightarrow> filesystem" where
  "rename_tree src dst fs =
     map (\<lambda>e. if prefix src (fst e) then (dst @ drop (length src) (fst e), snd e) else e)
       (filter (\<lambda>e. \<not> prefix dst (fst e)) fs)"

definition shutil_move :: "filesystem \<Rightarrow> path \<Rightarrow> path \<Rightarrow> exn + filesystem" where
  "shutil_move fs src dst =
     (case access_error fs src of
        Some e \<Rightarrow> Inl e
      | None \<Rightarrow>
          (case access_error fs dst of
             Some e \<Rightarrow> Inl e
           | None \<Rightarrow>
               if node_at fs src = None \<or> is_anchor src
               then Inl (os_error FileNotFoundError ''[Errno 2] No such file or directory'' src)
               else if node_at fs dst \<noteq> None
               then Inl (os_error FileExistsError ''[Errno 17] File exists'' dst)
               else if prefix src dst
               then Inl (Exn ShutilError (''Cannot move a directory '' @ [CHR 0x27] @
                      str_path src @ [CHR 0x27] @ '' into itself '' @ [CHR 0x27] @
                      str_path dst @ [CHR 0x27] @ ''.''))
               else if node_at fs (parent dst) \<noteq> Some Dir
               then Inl (os_error FileNotFoundError ''[Errno 2] No such file or directory'' dst)
               else Inr (rename_tree src dst fs)))"

text \<open>
  The loop over \<^verbatim>\<open>jpg_files\<close>, with the counter \<^verbatim>\<open>moved_count\<close> and the list \<^verbatim>\<open>errors\<close>. The
  body of the loop is a \<^verbatim>\<open>try\<close> block of its own: an error of the existence check or of the
  move is added to \<^verbatim>\<open>errors\<close> and the loop goes on.
\<close>

definition move_failed :: "path \<Rightarrow> exn \<Rightarrow> string" where
  "move_failed jpg_file e = ''Error moving '' @ path_name jpg_file @ '': '' @ str_exn e"

fun move_loop ::
  "path \<Rightarrow> path list \<Rightarrow> world \<Rightarrow> nat \<Rightarrow> string list \<Rightarrow> world \<times> nat \<times> string list" where
  "move_loop dest_path [] w moved_count errors = (w, moved_count, errors)"
| "move_loop dest_path (jpg_file # rest) w moved_count errors =
     (let dest_file = joinpath dest_path (path_name jpg_file) in
      case path_exists (files w) dest_file of
        Inl e \<Rightarrow>
          move_loop dest_path rest (print_line (''Error: '' @ move_failed jpg_file e) w)
            moved_count (errors @ [move_failed jpg_file e])
      | Inr True \<Rightarrow>
          move_loop dest_path rest
            (print_line (''Warning: '' @ path_name jpg_file @
               '' already exists in destination. Skipping...'') w)
            moved_count errors
      | Inr False \<Rightarrow>
          (case shutil_move (files w) jpg_file dest_file of
             Inr fs' \<Rightarrow>
               move_loop dest_path rest
                 (print_line (''Moved: '' @ path_name jpg_file) (w\<lparr>files := fs'\<rparr>))
                 (Suc moved_count) errors
           | Inl e \<Rightarrow>
               move_loop dest_path rest (print_line (''Error: '' @ move_failed jpg_file e) w)
                 moved_count (errors @ [move_failed jpg_file e])))"

text \<open>
  The result is the world after the call and either the returned pair or the exception that
  leaves the function: the existence check of the source and \<^verbatim>\<open>dest_path.mkdir\<close> stand
  before the \<^verbatim>\<open>try\<close> block, so their errors reach the caller. An error of the listing is
  caught by the outer handler.
\<close>

definition image_patterns :: "string list" where
  "image_patterns = [''.jpg'', ''.JPG'', ''.jpeg'', ''.JPEG'']"

definition source_missing :: "string \<Rightarrow> string" where
  "source_missing source_folder =
     ''Source folder '' @ [CHR 0x27] @ source_folder @ [CHR 0x27] @ '' does not exist.''"

definition move_jpg_files ::
  "string \<Rightarrow> string \<Rightarrow> world \<Rightarrow> world \<times> (exn + nat \<times> string list)" where
  "move_jpg_files source_folder destination_folder w =
     (let source_path = Path source_folder;
          dest_path = Path destination_folder
      in case path_exists (files w) source_path of
           Inl e \<Rightarrow> (w, Inl e)
         | Inr False \<Rightarrow>
             (print_line (''Error: '' @ source_missing source_folder) w,
              Inr (0, [source_missing source_folder]))
         | Inr True \<Rightarrow>
             (case path_mkdir (files w) dest_path of
                (fs1, Some e) \<Rightarrow> (w\<lparr>files := fs1\<rparr>, Inl e)
              | (fs1, None) \<Rightarrow>
                  let w1 = print_line (''Destination folder created/verified: '' @
                             destination_folder) (w\<lparr>files := fs1\<rparr>)
                  in case glob_all (files w1) source_path image_patterns of
                       Inl e \<Rightarrow>
                         (print_line (''Error: '' @ (''Unexpected error: '' @ str_exn e)) w1,
                          Inr (0, [''Unexpected error: '' @ str_exn e]))
                     | Inr jpg_files \<Rightarrow>
                         if jpg_files = []
                         then (print_line ''No .jpg files found in the source folder.'' w1,
                               Inr (0, []))
                         else
                           let w2 = print_line (''Found '' @ show_nat (length jpg_files) @
                                      '' image files to move...'') w1
                           in (case move_loop dest_path jpg_files w2 0 [] of
                                 (w3, moved_count, errors) \<Rightarrow>
                                   let w4 = print_line (newline @
                                              ''Operation completed! Moved '' @
                                              show_nat moved_count @ '' files.'') w3;
                                       w5 = (if errors \<noteq> []
                                             then print_line (''Encountered '' @
                                                    show_nat (length errors) @ '' errors.'') w4
                                             else w4)
                                   in (w5, Inr (moved_count, errors)))))"

section \<open>Declarative reading of the matcher\<close>

text \<open>
  \<open>matches pat p s n\<close>: the first \<open>n\<close> characters of \<open>s\<close> can be split along the atoms of
  \<open>pat\<close>, with \<open>p\<close> the character before \<open>s\<close>. It says which matches exist; \<open>bt\<close> says
  which one the backtracking search returns.
\<close>

definition last_or :: "char option \<Rightarrow> string \<Rightarrow> char option" where
  "last_or p u = (if u = [] then p else Some (last u))"

fun matches :: "atom list \<Rightarrow> char option \<Rightarrow> string \<Rightarrow> nat \<Rightarrow> bool" where
  "matches [] p s n = (n = 0)"
| "matches (Lit c # r) p s n = (\<exists>xs m. s = c # xs \<and> n = Suc m \<and> matches r (Some c) xs m)"
| "matches (AtLeast k P # r) p s n =
     (\<exists>u v m. s = u @ v \<and> k \<le> length u \<and> list_all P u \<and> n = length u + m \<and>
        matches r (last_or p u) v m)"
| "matches (WordB # r) p s n = (word_boundary p s \<and> matches r p s n)"
| "matches (Bol # r) p s n = (p = None \<and> matches r p s n)"
| "matches (Eol # r) p s n = ((s = [] \<or> s = newline) \<and> matches r p s n)"
| "matches (Eos # r) p s n = (s = [] \<and> matches r p s n)"



subsection \<open>The shape of an address\<close>

text \<open>
  A string has the shape of an address, for a class \<open>T\<close> of top-level characters, when it is
  a non-empty run of local-part characters, an at sign, a non-empty run of domain characters,
  a dot, and at least two characters of \<open>T\<close>.
\<close>

definition email_shape :: "(char \<Rightarrow> bool) \<Rightarrow> string \<Rightarrow> bool" where
  "email_shape T s =
     (\<exists>l d t. s = l @ CHR ''@'' # d @ CHR ''.'' # t \<and>
        l \<noteq> [] \<and> list_all local_class l \<and> d \<noteq> [] \<and> list_all domain_class d \<and>
        2 \<le> length t \<and> list_all T t)"

text \<open>
  The discovery pattern as the specification words it: the top-level label is two or more
  letters. It differs from \<open>email_pattern\<close> in the last class only.
\<close>

definition spec_discovery_pattern :: "atom list" where
  "spec_discovery_pattern =
     [WordB, AtLeast 1 local_class, Lit CHR ''@'', AtLeast 1 domain_class, Lit CHR ''.'',
      AtLeast 2 (\<lambda>c. is_upper c \<or> is_lower c), WordB]"

section \<open>The matcher finds a match exactly when one exists\<close>

lemma first_down_Some:
  "first_down f n k = Some r \<Longrightarrow> \<exists>j. n \<le> j \<and> j \<le> k \<and> f j = Some r"
proof (induction k)
  case 0
  then show ?case by (auto split: if_splits)
next
  case (Suc k)
  show ?case
  proof (cases "f (Suc k)")
    case None
    with Suc.prems have "first_down f n k = Some r"
      by (auto split: if_splits)
    with Suc.IH obtain j where "n \<le> j" "j \<le> k" "f j = Some r" by blast
    then show ?thesis by (intro exI[of _ j]) simp
  next
    case (Some a)
    with Suc.prems have "\<not> Suc k < n" "f (Suc k) = Some r"
      by (auto split: if_splits)
    then show ?thesis by (intro exI[of _ "Suc k"]) simp
  qed
qed

lemma first_down_None:
  "first_down f n k = None \<Longrightarrow> n \<le> j \<Longrightarrow> j \<le> k \<Longrightarrow> f j = None"
proof (induction k)
  case 0
  then show ?case by (auto split: if_splits)
next
  case (Suc k)
  then show ?case
    by (cases "j = Suc k") (auto split: if_splits option.splits)
qed

lemma run_prefix:
  "j \<le> length (takeWhile P s) \<longleftrightarrow> j \<le> length s \<and> list_all P (take j s)"
proof (induction s arbitrary: j)
  case Nil
  then show ?case by simp
next
  case (Cons x xs)
  then show ?case by (cases j) auto
qed

lemma prev_after_take:
  "j \<le> length s \<Longrightarrow> prev_after p s j = last_or p (take j s)"
  by (cases j) (auto simp: prev_after_def last_or_def last_conv_nth min_def)

lemma bt_sound: "bt pat p s = Some n \<Longrightarrow> matches pat p s n"
proof (induction pat p s arbitrary: n rule: bt.induct)
  case (3 k P r p s)
  from "3.prems" obtain j where j: "k \<le> j" "j \<le> length (takeWhile P s)"
    and f: "map_option ((+) j) (bt r (prev_after p s j) (drop j s)) = Some n"
    by (auto dest!: first_down_Some)
  from f obtain m where m: "bt r (prev_after p s j) (drop j s) = Some m" "n = j + m"
    by auto
  from j have js: "j \<le> length s" "list_all P (take j s)"
    by (simp_all add: run_prefix)
  have "matches r (prev_after p s j) (drop j s) m"
    using "3.IH" m(1) by blast
  then have "matches r (last_or p (take j s)) (drop j s) m"
    using js by (simp add: prev_after_take)
  then have "s = take j s @ drop j s \<and> k \<le> length (take j s) \<and> list_all P (take j s) \<and>
      n = length (take j s) + m \<and> matches r (last_or p (take j s)) (drop j s) m"
    using j js m(2) by (simp add: min_def)
  then have "\<exists>u v m'. s = u @ v \<and> k \<le> length u \<and> list_all P u \<and> n = length u + m' \<and>
      matches r (last_or p u) v m'"
    by (intro exI[of _ "take j s"] exI[of _ "drop j s"] exI[of _ m])
  then show ?case
    by simp
qed (auto split: list.splits if_splits)

lemma bt_complete: "matches pat p s n \<Longrightarrow> bt pat p s \<noteq> None"
proof (induction pat p s arbitrary: n rule: bt.induct)
  case (3 k P r p s)
  from "3.prems" obtain u v m where uv: "s = u @ v" "k \<le> length u" "list_all P u"
    and m: "matches r (last_or p u) v m"
    by auto
  let ?j = "length u"
  have j: "?j \<le> length (takeWhile P s)"
    using uv by (simp add: run_prefix)
  have "matches r (prev_after p s ?j) (drop ?j s) m"
    using m uv by (simp add: prev_after_take)
  then have "bt r (prev_after p s ?j) (drop ?j s) \<noteq> None"
    using "3.IH" by blast
  then have nz: "map_option ((+) ?j) (bt r (prev_after p s ?j) (drop ?j s)) \<noteq> None"
    by simp
  define f where "f = (\<lambda>k. map_option ((+) k) (bt r (prev_after p s k) (drop k s)))"
  have "first_down f k (length (takeWhile P s)) \<noteq> None"
  proof
    assume "first_down f k (length (takeWhile P s)) = None"
    then have "f ?j = None"
      using uv(2) j by (rule first_down_None)
    with nz show False
      by (simp add: f_def)
  qed
  then show ?case
    by (simp add: f_def)
next
  case (2 c r p s)
  then show ?case
    by auto
qed auto

section \<open>Validation partitions its input\<close>

lemma validate_loop_filter:
  "validate_loop xs v i =
     (v @ filter (re_match strict_pattern) xs, i @ filter (\<lambda>e. \<not> re_match strict_pattern e) xs)"
  by (induction xs arbitrary: v i) auto

lemma validate_emails_valid:
  "valid (validate_emails email_list) = filter (re_match strict_pattern) email_list"
  by (simp add: validate_emails_def validate_loop_filter)

lemma validate_emails_invalid:
  "invalid (validate_emails email_list) = filter (\<lambda>e. \<not> re_match strict_pattern e) email_list"
  by (simp add: validate_emails_def validate_loop_filter)

lemma validate_emails_totals:
  "total_valid (validate_emails email_list) = length (valid (validate_emails email_list))"
  "total_invalid (validate_emails email_list) = length (invalid (validate_emails email_list))"
  by (simp_all add: validate_emails_def validate_loop_filter)

text \<open>
  Claim C4. For every list given to \<open>validate_emails\<close>, the valid and the invalid list
  partition the input: the valid list is the input filtered by the strict pattern and the
  invalid list is the input filtered by its negation (so each keeps the input's relative
  order), their lengths add up to the input's length, together they hold exactly the entries
  of the input with their multiplicities, and no entry is in both.
\<close>

theorem validate_emails_partition:
  "valid (validate_emails email_list) = filter (re_match strict_pattern) email_list \<and>
   invalid (validate_emails email_list) = filter (\<lambda>e. \<not> re_match strict_pattern e) email_list \<and>
   length (valid (validate_emails email_list)) + length (invalid (validate_emails email_list))
     = length email_list \<and>
   mset (valid (validate_emails email_list)) + mset (invalid (validate_emails email_list))
     = mset email_list \<and>
   set (valid (validate_emails email_list)) \<inter> set (invalid (validate_emails email_list)) = {} \<and>
   subseq (valid (validate_emails email_list)) email_list \<and>
   subseq (invalid (validate_emails email_list)) email_list \<and>
   total_valid (validate_emails email_list) = length (valid (validate_emails email_list)) \<and>
   total_invalid (validate_emails email_list) = length (invalid (validate_emails email_list))"
proof (intro conjI)
  show "length (valid (validate_emails email_list)) + length (invalid (validate_emails email_list))
      = length email_list"
    unfolding validate_emails_valid validate_emails_invalid by (rule sum_length_filter_compl)
  show "mset (valid (validate_emails email_list)) + mset (invalid (validate_emails email_list))
      = mset email_list"
    unfolding validate_emails_valid validate_emails_invalid by simp
  show "set (valid (validate_emails email_list)) \<inter> set (invalid (validate_emails email_list)) = {}"
    unfolding validate_emails_valid validate_emails_invalid by auto
  show "subseq (valid (validate_emails email_list)) email_list"
    unfolding validate_emails_valid by (rule subseq_filter_left)
  show "subseq (invalid (validate_emails email_list)) email_list"
    unfolding validate_emails_invalid by (rule subseq_filter_left)
qed (rule validate_emails_valid validate_emails_invalid validate_emails_totals)+

theorem validate_emails_partition_witness:
  "valid (validate_emails [''user@example.com'', ''bad@domain'', ''x@y.co.uk''])
     = [''user@example.com'', ''x@y.co.uk''] \<and>
   invalid (validate_emails [''user@example.com'', ''bad@domain'', ''x@y.co.uk''])
     = [''bad@domain'']"
proof -
  have "filter (re_match strict_pattern) [''user@example.com'', ''bad@domain'', ''x@y.co.uk'']
      = [''user@example.com'', ''x@y.co.uk'']"
    by code_simp
  moreover have "filter (\<lambda>e. \<not> re_match strict_pattern e)
      [''user@example.com'', ''bad@domain'', ''x@y.co.uk''] = [''bad@domain'']"
    by code_simp
  ultimately show ?thesis
    using validate_emails_partition [of "[''user@example.com'', ''bad@domain'', ''x@y.co.uk'']"]
    by simp
qed

section \<open>What the two patterns match\<close>

lemma re_match_iff: "re_match pat s \<longleftrightarrow> (\<exists>n. matches pat None s n)"
  unfolding re_match_def using bt_sound bt_complete by blast

lemma fullmatch_iff: "fullmatch pat s \<longleftrightarrow> (\<exists>n. matches (pat @ [Eos]) None s n)"
  unfolding fullmatch_def using bt_sound bt_complete by blast

lemma last_or_nonempty: "t \<noteq> [] \<Longrightarrow> last_or p t = Some (last t)"
  by (simp add: last_or_def)

lemma matches_AtLeastI:
  "k \<le> length u \<Longrightarrow> list_all P u \<Longrightarrow> matches r (last_or p u) v m \<Longrightarrow>
   matches (AtLeast k P # r) p (u @ v) (length u + m)"
  apply (simp only: matches.simps)
  apply (rule exI[of _ u], rule exI[of _ v], rule exI[of _ m])
  apply simp
  done

lemma matches_LitI: "matches r (Some c) xs m \<Longrightarrow> matches (Lit c # r) p (c # xs) (Suc m)"
  by simp

lemma email_shapeI:
  "l \<noteq> [] \<Longrightarrow> list_all local_class l \<Longrightarrow> d \<noteq> [] \<Longrightarrow> list_all domain_class d \<Longrightarrow>
   2 \<le> length t \<Longrightarrow> list_all T t \<Longrightarrow> email_shape T (l @ CHR ''@'' # d @ CHR ''.'' # t)"
  apply (simp only: email_shape_def)
  apply (rule exI[of _ l], rule exI[of _ d], rule exI[of _ t])
  apply simp
  done

lemma core_matchesD:
  assumes "matches (AtLeast 1 L # Lit a # AtLeast 1 D # Lit b # AtLeast 2 T # rest) p s n"
  obtains l d t v m where "s = l @ a # d @ b # t @ v" "l \<noteq> []" "list_all L l" "d \<noteq> []"
    "list_all D d" "2 \<le> length t" "list_all T t" "matches rest (Some (last t)) v m"
    "n = length l + Suc (length d + Suc (length t + m))"
proof -
  from assms obtain l v1 m1 where 1: "s = l @ v1" "1 \<le> length l" "list_all L l"
    and n1: "n = length l + m1" and r1: "matches (Lit a # AtLeast 1 D # Lit b # AtLeast 2 T # rest) (last_or p l) v1 m1"
    unfolding matches.simps(3) by blast
  from r1 obtain v2 m2 where 2: "v1 = a # v2" and n2: "m1 = Suc m2"
    and r2: "matches (AtLeast 1 D # Lit b # AtLeast 2 T # rest) (Some a) v2 m2"
    unfolding matches.simps(2) by blast
  from r2 obtain d v3 m3 where 3: "v2 = d @ v3" "1 \<le> length d" "list_all D d"
    and n3: "m2 = length d + m3" and r3: "matches (Lit b # AtLeast 2 T # rest) (last_or (Some a) d) v3 m3"
    unfolding matches.simps(3) by blast
  from r3 obtain v4 m4 where 4: "v3 = b # v4" and n4: "m3 = Suc m4"
    and r4: "matches (AtLeast 2 T # rest) (Some b) v4 m4"
    unfolding matches.simps(2) by blast
  from r4 obtain t v m where 5: "v4 = t @ v" "2 \<le> length t" "list_all T t"
    and n5: "m4 = length t + m" and r5: "matches rest (last_or (Some b) t) v m"
    unfolding matches.simps(3) by blast
  have t: "t \<noteq> []" using 5(2) by auto
  have s: "s = l @ a # d @ b # t @ v"
    using 1(1) 2 3(1) 4 5(1) by simp
  have l: "l \<noteq> []" using 1(2) by auto
  have d: "d \<noteq> []" using 3(2) by auto
  have r: "matches rest (Some (last t)) v m"
    using r5 t by (simp add: last_or_nonempty)
  have n: "n = length l + Suc (length d + Suc (length t + m))"
    using n1 n2 n3 n4 n5 by simp
  show thesis
    using s l 1(3) d 3(3) 5(2) 5(3) r n by (rule that)
qed

lemma core_matchesI:
  assumes "l \<noteq> []" "list_all L l" "d \<noteq> []" "list_all D d" "2 \<le> length t" "list_all T t"
    and r: "matches rest (Some (last t)) v m"
  shows "matches (AtLeast 1 L # Lit a # AtLeast 1 D # Lit b # AtLeast 2 T # rest) p
    (l @ a # d @ b # t @ v) (length l + Suc (length d + Suc (length t + m)))"
proof -
  have t: "t \<noteq> []" using assms(5) by auto
  have l1: "1 \<le> length l" using assms(1) by (cases l) auto
  have d1: "1 \<le> length d" using assms(3) by (cases d) auto
  have "matches rest (last_or (Some b) t) v m"
    using r t by (simp add: last_or_nonempty)
  then have "matches (AtLeast 2 T # rest) (Some b) (t @ v) (length t + m)"
    using assms(5,6) by (intro matches_AtLeastI)
  then have "matches (Lit b # AtLeast 2 T # rest) (last_or (Some a) d) (b # t @ v)
      (Suc (length t + m))"
    by (rule matches_LitI)
  then have "matches (AtLeast 1 D # Lit b # AtLeast 2 T # rest) (Some a) (d @ b # t @ v)
      (length d + Suc (length t + m))"
    using d1 assms(4) by (intro matches_AtLeastI)
  then have "matches (Lit a # AtLeast 1 D # Lit b # AtLeast 2 T # rest) (last_or p l)
      (a # d @ b # t @ v) (Suc (length d + Suc (length t + m)))"
    by (rule matches_LitI)
  then show ?thesis
    using l1 assms(2) by (intro matches_AtLeastI)
qed

lemma strict_shape_match:
  assumes "email_shape strict_tld_class u" "e = [] \<or> e = newline"
  shows "re_match strict_pattern (u @ e)"
proof -
  from assms(1) obtain l d t where u: "u = l @ CHR ''@'' # d @ CHR ''.'' # t"
    and parts: "l \<noteq> []" "list_all local_class l" "d \<noteq> []" "list_all domain_class d"
      "2 \<le> length t" "list_all strict_tld_class t"
    unfolding email_shape_def by blast
  have "matches [Eol] (Some (last t)) e 0"
    using assms(2) by auto
  with parts have "matches [AtLeast 1 local_class, Lit CHR ''@'', AtLeast 1 domain_class,
      Lit CHR ''.'', AtLeast 2 strict_tld_class, Eol] None
      (l @ CHR ''@'' # d @ CHR ''.'' # t @ e) (length l + Suc (length d + Suc (length t + 0)))"
    by (rule core_matchesI)
  then have "matches strict_pattern None (u @ e) (length l + Suc (length d + Suc (length t + 0)))"
    by (simp add: strict_pattern_def u)
  then show ?thesis
    unfolding re_match_iff by (rule exI)
qed

lemma strict_match_shape:
  assumes "re_match strict_pattern s"
  obtains u e where "s = u @ e" "email_shape strict_tld_class u" "e = [] \<or> e = newline"
proof -
  from assms obtain n where "matches strict_pattern None s n"
    unfolding re_match_iff by blast
  then have "matches [AtLeast 1 local_class, Lit CHR ''@'', AtLeast 1 domain_class,
      Lit CHR ''.'', AtLeast 2 strict_tld_class, Eol] None s n"
    by (simp add: strict_pattern_def)
  then obtain l d t v m where s: "s = l @ CHR ''@'' # d @ CHR ''.'' # t @ v"
    and parts: "l \<noteq> []" "list_all local_class l" "d \<noteq> []" "list_all domain_class d"
      "2 \<le> length t" "list_all strict_tld_class t"
    and r: "matches [Eol] (Some (last t)) v m"
    by (rule core_matchesD)
  have sh: "email_shape strict_tld_class (l @ CHR ''@'' # d @ CHR ''.'' # t)"
    using parts by (rule email_shapeI)
  have e: "v = [] \<or> v = newline"
    using r by simp
  have "s = (l @ CHR ''@'' # d @ CHR ''.'' # t) @ v"
    using s by simp
  then show thesis
    using sh e by (rule that)
qed

lemma discovery_shape_fullmatch:
  assumes "email_shape tld_class s" "is_word (hd s)" "is_word (last s)"
  shows "fullmatch email_pattern s"
proof -
  from assms(1) obtain l d t where s: "s = l @ CHR ''@'' # d @ CHR ''.'' # t"
    and parts: "l \<noteq> []" "list_all local_class l" "d \<noteq> []" "list_all domain_class d"
      "2 \<le> length t" "list_all tld_class t"
    unfolding email_shape_def by blast
  have t: "t \<noteq> []" using parts(5) by auto
  have b1: "word_boundary None s"
    using assms(2) s parts(1) by (cases l) (auto simp: word_boundary_def)
  have "word_boundary (Some (last t)) []"
    using assms(3) s t by (auto simp: word_boundary_def)
  then have "matches [WordB, Eos] (Some (last t)) [] 0"
    by simp
  with parts have "matches [AtLeast 1 local_class, Lit CHR ''@'', AtLeast 1 domain_class,
      Lit CHR ''.'', AtLeast 2 tld_class, WordB, Eos] None
      (l @ CHR ''@'' # d @ CHR ''.'' # t @ []) (length l + Suc (length d + Suc (length t + 0)))"
    by (rule core_matchesI)
  then have "matches (email_pattern @ [Eos]) None s
      (length l + Suc (length d + Suc (length t + 0)))"
    using b1 by (simp add: email_pattern_def s)
  then show ?thesis
    unfolding fullmatch_iff by (rule exI)
qed

lemma discovery_fullmatch_shape:
  assumes "fullmatch email_pattern s"
  shows "email_shape tld_class s \<and> is_word (hd s) \<and> is_word (last s)"
proof -
  from assms obtain n where "matches (email_pattern @ [Eos]) None s n"
    unfolding fullmatch_iff by blast
  then have b1: "word_boundary None s"
    and "matches [AtLeast 1 local_class, Lit CHR ''@'', AtLeast 1 domain_class,
      Lit CHR ''.'', AtLeast 2 tld_class, WordB, Eos] None s n"
    by (simp_all add: email_pattern_def)
  then obtain l d t v m where s: "s = l @ CHR ''@'' # d @ CHR ''.'' # t @ v"
    and parts: "l \<noteq> []" "list_all local_class l" "d \<noteq> []" "list_all domain_class d"
      "2 \<le> length t" "list_all tld_class t"
    and r: "matches [WordB, Eos] (Some (last t)) v m"
    by (elim core_matchesD)
  have t: "t \<noteq> []" using parts(5) by auto
  from r have v: "v = []" and b2: "word_boundary (Some (last t)) v"
    by auto
  have sh: "email_shape tld_class (l @ CHR ''@'' # d @ CHR ''.'' # t)"
    using parts by (rule email_shapeI)
  have "is_word (hd s)"
    using b1 s parts(1) by (cases l) (auto simp: word_boundary_def)
  moreover have "is_word (last s)"
    using b2 s v t by (auto simp: word_boundary_def)
  ultimately show ?thesis
    using sh s v by simp
qed

lemma tld_classes_agree: "c \<noteq> CHR ''|'' \<Longrightarrow> tld_class c = strict_tld_class c"
  by (auto simp: tld_class_def strict_tld_class_def)

lemma email_shape_no_bar:
  assumes "CHR ''|'' \<notin> set s"
  shows "email_shape tld_class s = email_shape strict_tld_class s"
proof -
  have "list_all tld_class t = list_all strict_tld_class t" if "set t \<subseteq> set s" for t
  proof -
    have "tld_class c = strict_tld_class c" if "c \<in> set t" for c
      using that \<open>set t \<subseteq> set s\<close> assms by (intro tld_classes_agree) auto
    then show ?thesis
      by (simp add: list_all_iff)
  qed
  moreover have "set t \<subseteq> set s" if "s = l @ CHR ''@'' # d @ CHR ''.'' # t" for l d t
    using that by auto
  ultimately show ?thesis
    unfolding email_shape_def by metis
qed

lemma letter_is_word: "strict_tld_class c \<Longrightarrow> is_word c"
  by (auto simp: strict_tld_class_def is_word_def)

lemma letter_not_newline: "strict_tld_class c \<Longrightarrow> c \<noteq> CHR 0x0A"
  by (auto simp: strict_tld_class_def is_lower_def is_upper_def code_def)

lemma email_shape_last:
  assumes "email_shape T s"
  shows "s \<noteq> [] \<and> T (last s)"
proof -
  from assms obtain l d t where s: "s = l @ CHR ''@'' # d @ CHR ''.'' # t"
    and t: "2 \<le> length t" "list_all T t"
    unfolding email_shape_def by blast
  have "t \<noteq> []" using t(1) by auto
  then have "last s = last t" "last t \<in> set t"
    using s by auto
  with t(2) show ?thesis
    using s by (auto simp: list_all_iff)
qed

lemma patterns_iff_without_bar:
  assumes "CHR ''|'' \<notin> set s"
  shows "fullmatch email_pattern s \<longleftrightarrow>
     re_match strict_pattern s \<and> s \<noteq> [] \<and> is_word (hd s) \<and> last s \<noteq> CHR 0x0A"
proof
  assume "fullmatch email_pattern s"
  then have sh: "email_shape tld_class s" and w: "is_word (hd s)"
    using discovery_fullmatch_shape by blast+
  from sh have st: "email_shape strict_tld_class s"
    using assms by (simp add: email_shape_no_bar)
  then have "re_match strict_pattern (s @ [])"
    by (rule strict_shape_match) simp
  moreover have "s \<noteq> []" "last s \<noteq> CHR 0x0A"
    using email_shape_last[OF st] letter_not_newline by blast+
  ultimately show "re_match strict_pattern s \<and> s \<noteq> [] \<and> is_word (hd s) \<and> last s \<noteq> CHR 0x0A"
    using w by simp
next
  assume a: "re_match strict_pattern s \<and> s \<noteq> [] \<and> is_word (hd s) \<and> last s \<noteq> CHR 0x0A"
  then obtain u e where s: "s = u @ e" and st: "email_shape strict_tld_class u"
    and e: "e = [] \<or> e = newline"
    using strict_match_shape by blast
  have "e = []"
  proof (rule ccontr)
    assume "e \<noteq> []"
    with e have "e = newline" by simp
    with s have "last s = CHR 0x0A" by (simp add: newline_def)
    with a show False by simp
  qed
  with s st have st': "email_shape strict_tld_class s" by simp
  then have "email_shape tld_class s"
    using assms by (simp add: email_shape_no_bar)
  moreover have "is_word (last s)"
    using email_shape_last[OF st'] letter_is_word by blast
  ultimately show "fullmatch email_pattern s"
    using a by (intro discovery_shape_fullmatch) simp_all
qed

lemma findall_from_matches:
  "e \<in> set (findall_from pat p s) \<Longrightarrow> \<exists>p' s' n. bt pat p' s' = Some n \<and> e = take n s'"
proof (induction pat p s rule: findall_from.induct)
  case (1 pat p)
  show ?case
  proof (cases "bt pat p []")
    case None
    with 1 show ?thesis by simp
  next
    case (Some n)
    with 1 have "bt pat p [] = Some n \<and> e = take n []"
      by simp
    then show ?thesis by blast
  qed
next
  case (2 pat p x xs)
  show ?case
  proof (cases "bt pat p (x # xs)")
    case None
    with 2 show ?thesis by simp
  next
    case (Some n)
    with "2.prems" have "e = take n (x # xs) \<or>
        e \<in> set (findall_from pat (Some ((x # xs) ! (max 1 n - 1))) (drop (max 1 n) (x # xs)))"
      by simp
    then show ?thesis
    proof
      assume "e = take n (x # xs)"
      with Some show ?thesis by blast
    next
      assume "e \<in> set (findall_from pat (Some ((x # xs) ! (max 1 n - 1)))
          (drop (max 1 n) (x # xs)))"
      with "2.IH"(2)[OF Some] show ?thesis by blast
    qed
  qed
qed

lemma discovery_match_shape:
  assumes "bt email_pattern p s = Some n"
  shows "email_shape tld_class (take n s)"
proof -
  from assms have "matches email_pattern p s n"
    by (rule bt_sound)
  then have "matches [AtLeast 1 local_class, Lit CHR ''@'', AtLeast 1 domain_class,
      Lit CHR ''.'', AtLeast 2 tld_class, WordB] p s n"
    by (simp add: email_pattern_def)
  then obtain l d t v m where s: "s = l @ CHR ''@'' # d @ CHR ''.'' # t @ v"
    and parts: "l \<noteq> []" "list_all local_class l" "d \<noteq> []" "list_all domain_class d"
      "2 \<le> length t" "list_all tld_class t"
    and r: "matches [WordB] (Some (last t)) v m"
    and n: "n = length l + Suc (length d + Suc (length t + m))"
    by (rule core_matchesD)
  from r have "m = 0" by simp
  with n have "n = length (l @ CHR ''@'' # d @ CHR ''.'' # t)" by simp
  moreover have "s = (l @ CHR ''@'' # d @ CHR ''.'' # t) @ v" using s by simp
  ultimately have "take n s = l @ CHR ''@'' # d @ CHR ''.'' # t"
    by (simp only: append_eq_conv_conj take_all_iff append_take_drop_id take_append) simp
  with parts show ?thesis
    by (simp add: email_shapeI)
qed

lemma findall_email_shape:
  "e \<in> set (findall email_pattern text) \<Longrightarrow> email_shape tld_class e"
  unfolding findall_def using findall_from_matches discovery_match_shape by blast

lemma email_shape_chars:
  assumes "email_shape T s" "c \<in> set s"
  shows "local_class c \<or> domain_class c \<or> T c \<or> c = CHR ''@''"
proof -
  from assms(1) obtain l d t where s: "s = l @ CHR ''@'' # d @ CHR ''.'' # t"
    and parts: "list_all local_class l" "list_all domain_class d" "list_all T t"
    unfolding email_shape_def by blast
  from assms(2) s have "c \<in> set l \<or> c = CHR ''@'' \<or> c \<in> set d \<or> c = CHR ''.'' \<or> c \<in> set t"
    by auto
  moreover have "domain_class CHR ''.''"
    by (simp add: domain_class_def)
  ultimately show ?thesis
    using parts by (auto simp: list_all_iff)
qed

lemma class_not_newline:
  "local_class c \<or> domain_class c \<or> tld_class c \<or> c = CHR ''@'' \<Longrightarrow> c \<noteq> CHR 0x0A"
  by (auto simp: local_class_def domain_class_def tld_class_def is_lower_def is_upper_def
      is_digit_def code_def)

lemma findall_email_no_newline:
  "e \<in> set (findall email_pattern text) \<Longrightarrow> CHR 0x0A \<notin> set e"
  using findall_email_shape email_shape_chars class_not_newline by blast

lemma discovery_valid_without_bar:
  assumes "e \<in> set (findall email_pattern text)" "CHR ''|'' \<notin> set e"
  shows "re_match strict_pattern e"
proof -
  have "email_shape strict_tld_class e"
    using assms findall_email_shape email_shape_no_bar by blast
  then have "re_match strict_pattern (e @ [])"
    by (rule strict_shape_match) simp
  then show ?thesis by simp
qed

text \<open>
  Claim C2, as amended. The two patterns use the same local-part and domain classes, and their
  top-level classes agree on every character but the bar. For a string \<open>s\<close> without a bar,
  the whole of \<open>s\<close> matches the discovery pattern exactly when \<open>s\<close> matches the strict
  pattern, begins with a word character and does not end in a line feed: the word boundary
  of the discovery pattern rejects a leading \<open>.\<close>, \<open>%\<close>, \<open>+\<close> or \<open>-\<close> that the strict pattern
  accepts, and the strict pattern's \<open>$\<close> accepts one trailing line feed. Every match that
  discovery returns and that has no bar is classified valid.
\<close>

theorem patterns_agree_up_to_anchoring:
  "(CHR ''|'' \<notin> set s \<longrightarrow>
      (fullmatch email_pattern s \<longleftrightarrow>
         re_match strict_pattern s \<and> s \<noteq> [] \<and> is_word (hd s) \<and> last s \<noteq> CHR 0x0A)) \<and>
   (e \<in> set (findall email_pattern text) \<and> CHR ''|'' \<notin> set e \<longrightarrow>
      e \<notin> set (invalid (validate_emails email_list)))"
proof (intro conjI impI)
  assume "CHR ''|'' \<notin> set s"
  then show "fullmatch email_pattern s \<longleftrightarrow>
      re_match strict_pattern s \<and> s \<noteq> [] \<and> is_word (hd s) \<and> last s \<noteq> CHR 0x0A"
    by (rule patterns_iff_without_bar)
next
  assume "e \<in> set (findall email_pattern text) \<and> CHR ''|'' \<notin> set e"
  then have "re_match strict_pattern e"
    using discovery_valid_without_bar by blast
  then show "e \<notin> set (invalid (validate_emails email_list))"
    by (simp add: validate_emails_invalid)
qed

theorem patterns_agree_up_to_anchoring_witness:
  "CHR ''|'' \<notin> set ''a.b@c-d.org'' \<and> fullmatch email_pattern ''a.b@c-d.org'' \<and>
   re_match strict_pattern ''a.b@c-d.org'' \<and>
   ''a@b.com'' \<in> set (findall email_pattern ''contact a@b.com or A@B.COM today'') \<and>
   ''a@b.com'' \<notin> set (invalid (validate_emails [''a@b.com'', ''bad@domain'']))"
proof -
  have h1: "CHR ''|'' \<notin> set ''a.b@c-d.org''"
    by simp
  have h2: "fullmatch email_pattern ''a.b@c-d.org''"
    by code_simp
  have h3: "''a@b.com'' \<in> set (findall email_pattern ''contact a@b.com or A@B.COM today'')"
    by code_simp
  have h4: "CHR ''|'' \<notin> set ''a@b.com''"
    by simp
  show ?thesis
    using h1 h2 h3 h4
      patterns_agree_up_to_anchoring [of "''a.b@c-d.org''" "''a@b.com''"
        "''contact a@b.com or A@B.COM today''" "[''a@b.com'', ''bad@domain'']"]
    by blast
qed

text \<open>
  The claim as the specification states it fails: \<open>-a@b.com\<close> matches the strict pattern, and
  the whole of it does not match the discovery pattern, whose word boundary needs a word
  character at the start.
\<close>

theorem patterns_agree_counterexample:
  "re_match strict_pattern ''-a@b.com'' \<and> \<not> fullmatch email_pattern ''-a@b.com''"
  by code_simp

text \<open>
  Claim C3. The specification has discovery return the matches of a pattern whose top-level
  label is two or more letters. The source's class \<^verbatim>\<open>[A-Z|a-z]\<close> also admits the bar, so on
  two addresses separated by a bar the source returns one match that runs across the bar
  where the specification's pattern returns both addresses.
\<close>

theorem discovery_bar_divergence:
  "findall email_pattern ''alice@example.com|bob@example.com'' = [''alice@example.com|bob''] \<and>
   findall spec_discovery_pattern ''alice@example.com|bob@example.com''
     = [''alice@example.com'', ''bob@example.com'']"
  by code_simp

section \<open>Deduplication keeps the first occurrences\<close>

lemma first_occurrences_snoc:
  "first_occurrences (pre @ [x]) =
     first_occurrences pre @ (if lower x \<in> set (map lower pre) then [] else [x])"
proof -
  have in_pre: "(pre @ [x]) ! i = pre ! i \<and> take i (pre @ [x]) = take i pre"
    if "i \<in> set [0..<length pre]" for i
    using that by (simp add: nth_append)
  have f: "filter (\<lambda>i. lower ((pre @ [x]) ! i) \<notin> set (map lower (take i (pre @ [x]))))
        [0..<length pre]
      = filter (\<lambda>i. lower (pre ! i) \<notin> set (map lower (take i pre))) [0..<length pre]"
    by (rule filter_cong) (use in_pre in auto)
  have m: "map (\<lambda>i. (pre @ [x]) ! i) (filter (\<lambda>i. lower (pre ! i) \<notin> set (map lower (take i pre)))
        [0..<length pre])
      = map (\<lambda>i. pre ! i) (filter (\<lambda>i. lower (pre ! i) \<notin> set (map lower (take i pre)))
        [0..<length pre])"
    by (rule map_cong) (use in_pre in auto)
  have step: "[0..<length (pre @ [x])] = [0..<length pre] @ [length pre]"
    by simp
  show ?thesis
    unfolding first_occurrences_def step filter_append map_append f m by simp
qed

lemma dedupe_loop_first_occurrences:
  "dedupe_loop xs (first_occurrences pre) (set (map lower pre)) = first_occurrences (pre @ xs)"
proof (induction xs arbitrary: pre)
  case Nil
  then show ?case by simp
next
  case (Cons x xs)
  show ?case
  proof (cases "lower x \<in> set (map lower pre)")
    case True
    then have "set (map lower (pre @ [x])) = set (map lower pre)"
      by auto
    with True Cons.IH[of "pre @ [x]"] show ?thesis
      by (simp add: first_occurrences_snoc)
  next
    case False
    have "insert (lower x) (set (map lower pre)) = set (map lower (pre @ [x]))"
      by auto
    with False Cons.IH[of "pre @ [x]"] show ?thesis
      by (simp add: first_occurrences_snoc)
  qed
qed

lemma dedupe_first_occurrences: "dedupe raw = first_occurrences raw"
  using dedupe_loop_first_occurrences[of raw "[]"]
  by (simp add: dedupe_def first_occurrences_def)

lemma dedupe_loop_distinct:
  "distinct (map lower emails) \<Longrightarrow> seen = set (map lower emails) \<Longrightarrow>
   distinct (map lower (dedupe_loop xs emails seen))"
proof (induction xs arbitrary: emails seen)
  case Nil
  then show ?case by simp
next
  case (Cons x xs)
  show ?case
  proof (cases "lower x \<in> seen")
    case True
    with Cons show ?thesis by simp
  next
    case False
    have "distinct (map lower (emails @ [x]))"
      using False Cons.prems by simp
    moreover have "insert (lower x) seen = set (map lower (emails @ [x]))"
      using Cons.prems by auto
    ultimately have "distinct (map lower (dedupe_loop xs (emails @ [x]) (insert (lower x) seen)))"
      by (rule Cons.IH)
    with False show ?thesis by simp
  qed
qed

lemma dedupe_distinct: "distinct (map lower (dedupe raw))"
  unfolding dedupe_def by (rule dedupe_loop_distinct) simp_all

lemma dedupe_Nil: "dedupe [] = []"
  by (simp add: dedupe_def)

section \<open>The report and its enumerated lines\<close>

lemma code_digit_char: "d < 10 \<Longrightarrow> code (digit_char d) = 48 + d"
  by (simp add: code_def digit_char_def)

lemma digit_char_is_digit: "d < 10 \<Longrightarrow> is_digit (digit_char d)"
  by (simp add: is_digit_def code_digit_char)

lemma show_nat_digits: "show_nat n \<noteq> [] \<and> list_all is_digit (show_nat n)"
proof (induction n rule: show_nat.induct)
  case (1 n)
  show ?case
  proof (cases "n < 10")
    case True
    then have "show_nat n = [digit_char n]"
      by (subst show_nat.simps) simp
    with True show ?thesis
      by (simp add: digit_char_is_digit)
  next
    case False
    then have eq: "show_nat n = show_nat (n div 10) @ [digit_char (n mod 10)]"
      by (subst show_nat.simps) simp
    from False 1 have "show_nat (n div 10) \<noteq> [] \<and> list_all is_digit (show_nat (n div 10))"
      by simp
    moreover have "is_digit (digit_char (n mod 10))"
      by (rule digit_char_is_digit) simp
    ultimately show ?thesis
      by (simp add: eq)
  qed
qed

lemma parse_enumerated_line_entry:
  "parse_enumerated_line (show_nat i @ ''. '' @ e) = Some e"
proof -
  have nd: "\<not> is_digit CHR ''.''"
    by (simp add: is_digit_def code_def)
  have d: "show_nat i \<noteq> []" "\<forall>c\<in>set (show_nat i). is_digit c"
    using show_nat_digits[of i] by (simp_all add: list_all_iff)
  have tw: "takeWhile is_digit (show_nat i @ CHR ''.'' # CHR '' '' # e) = show_nat i"
    using d(2) nd by (simp add: takeWhile_append2)
  have dw: "dropWhile is_digit (show_nat i @ CHR ''.'' # CHR '' '' # e) = CHR ''.'' # CHR '' '' # e"
    using d(2) nd by (simp add: dropWhile_append2)
  show ?thesis
    using d(1) by (simp add: parse_enumerated_line_def tw dw)
qed

lemma split_on_line:
  "c \<notin> set a \<Longrightarrow> split_on c (a @ c # rest) = a # split_on c rest"
  by (induction a) auto

lemma split_on_last: "c \<notin> set a \<Longrightarrow> split_on c a = [a]"
  by (induction a) auto

lemma is_digit_not_newline: "is_digit c \<Longrightarrow> c \<noteq> CHR 0x0A"
  by (auto simp: is_digit_def code_def)

lemma show_nat_no_newline: "CHR 0x0A \<notin> set (show_nat n)"
  using show_nat_digits[of n] is_digit_not_newline by (auto simp: list_all_iff)

lemma pad2_no_newline: "CHR 0x0A \<notin> set (pad2 n)"
  by (simp add: pad2_def show_nat_no_newline)

lemma strftime_long_no_newline: "CHR 0x0A \<notin> set (strftime_long t)"
  by (simp add: strftime_long_def show_nat_no_newline pad2_no_newline)

lemma parse_enumerated_line_None:
  "line = [] \<or> \<not> is_digit (hd line) \<Longrightarrow> parse_enumerated_line line = None"
  by (cases line) (auto simp: parse_enumerated_line_def)

lemma map_filter_append:
  "List.map_filter f (xs @ ys) = List.map_filter f xs @ List.map_filter f ys"
  by (simp add: List.map_filter_def)

lemma split_on_entries:
  assumes "\<forall>e\<in>set es. CHR 0x0A \<notin> set e"
  shows "split_on CHR 0x0A
      (concat (map (\<lambda>(i, email). show_nat i @ ''. '' @ email @ newline) (enumerate k es)))
    = map (\<lambda>(i, email). show_nat i @ ''. '' @ email) (enumerate k es) @ [[]]"
  using assms
proof (induction es arbitrary: k)
  case Nil
  then show ?case by simp
next
  case (Cons e es)
  have nn: "CHR 0x0A \<notin> set (show_nat k @ ''. '' @ e)"
    using Cons.prems by (simp add: show_nat_no_newline)
  have "split_on CHR 0x0A ((show_nat k @ ''. '' @ e) @ CHR 0x0A #
      concat (map (\<lambda>(i, email). show_nat i @ ''. '' @ email @ newline) (enumerate (Suc k) es)))
    = (show_nat k @ ''. '' @ e) # split_on CHR 0x0A
      (concat (map (\<lambda>(i, email). show_nat i @ ''. '' @ email @ newline) (enumerate (Suc k) es)))"
    using nn by (rule split_on_line)
  moreover have "split_on CHR 0x0A
      (concat (map (\<lambda>(i, email). show_nat i @ ''. '' @ email @ newline) (enumerate (Suc k) es)))
    = map (\<lambda>(i, email). show_nat i @ ''. '' @ email) (enumerate (Suc k) es) @ [[]]"
    using Cons.prems by (intro Cons.IH) simp
  ultimately show ?case
    by (simp add: newline_def)
qed

lemma parse_entries:
  "List.map_filter parse_enumerated_line
     (map (\<lambda>(i, email). show_nat i @ ''. '' @ email) (enumerate k es)) = es"
proof (induction es arbitrary: k)
  case Nil
  then show ?case by (simp add: List.map_filter_simps)
next
  case (Cons e es)
  then show ?case
    by (simp add: List.map_filter_simps parse_enumerated_line_entry[simplified])
qed

lemma universal_newlines_Cons:
  "c \<noteq> CHR 0x0D \<Longrightarrow> universal_newlines (c # s) = c # universal_newlines s"
  by (cases s) simp_all

lemma universal_newlines_id: "CHR 0x0D \<notin> set s \<Longrightarrow> universal_newlines s = s"
proof (induction s)
  case Nil
  then show ?case by simp
next
  case (Cons a s)
  then have "a \<noteq> CHR 0x0D" "universal_newlines s = s"
    by auto
  then show ?case
    by (simp add: universal_newlines_Cons)
qed

lemma universal_newlines_line:
  "\<exists>x. universal_newlines (a @ CHR 0x0A # rest) = x @ CHR 0x0A # universal_newlines rest"
proof (induction a rule: universal_newlines.induct)
  case 1
  have "universal_newlines ([] @ CHR 0x0A # rest) = [] @ CHR 0x0A # universal_newlines rest"
    by (simp add: universal_newlines_Cons)
  then show ?case by blast
next
  case (2 c)
  show ?case
  proof (cases "c = CHR 0x0D")
    case True
    then have "universal_newlines ([c] @ CHR 0x0A # rest) = [] @ CHR 0x0A # universal_newlines rest"
      by simp
    then show ?thesis by blast
  next
    case False
    then have "universal_newlines ([c] @ CHR 0x0A # rest) = [c] @ CHR 0x0A # universal_newlines rest"
      by (simp add: universal_newlines_Cons)
    then show ?thesis by blast
  qed
next
  case (3 c d cs)
  show ?case
  proof (cases "c = CHR 0x0D")
    case False
    with 3 obtain x where "universal_newlines ((d # cs) @ CHR 0x0A # rest)
        = x @ CHR 0x0A # universal_newlines rest"
      by blast
    with False have "universal_newlines ((c # d # cs) @ CHR 0x0A # rest)
        = (c # x) @ CHR 0x0A # universal_newlines rest"
      by simp
    then show ?thesis by blast
  next
    case cr: True
    show ?thesis
    proof (cases "d = CHR 0x0A")
      case True
      with cr 3 obtain x where "universal_newlines (cs @ CHR 0x0A # rest)
          = x @ CHR 0x0A # universal_newlines rest"
        by blast
      with cr True have "universal_newlines ((c # d # cs) @ CHR 0x0A # rest)
          = (CHR 0x0A # x) @ CHR 0x0A # universal_newlines rest"
        by simp
      then show ?thesis by blast
    next
      case False
      with cr 3 obtain x where "universal_newlines ((d # cs) @ CHR 0x0A # rest)
          = x @ CHR 0x0A # universal_newlines rest"
        by blast
      with cr False have "universal_newlines ((c # d # cs) @ CHR 0x0A # rest)
          = (CHR 0x0A # x) @ CHR 0x0A # universal_newlines rest"
        by simp
      then show ?thesis by blast
    qed
  qed
qed

lemma split_on_not_Nil: "split_on c x \<noteq> []"
  by (induction x) (auto split: list.splits)

lemma split_on_append_line:
  "split_on c (x @ c # rest) = split_on c x @ split_on c rest"
proof (induction x)
  case Nil
  then show ?case by simp
next
  case (Cons a x)
  obtain w ws where "split_on c x = w # ws"
    using split_on_not_Nil[of c x] by (cases "split_on c x") auto
  with Cons show ?case
    by simp
qed

lemma takeWhile_stop:
  "\<forall>x\<in>set xs. P x \<Longrightarrow> \<not> P y \<Longrightarrow> takeWhile P (xs @ y # ys) = xs"
  by (induction xs) auto

lemma listing_lines_after:
  assumes "\<forall>l\<in>set after. l \<noteq> separator_line"
  shows "listing_lines (pre @ separator_line # after) = after"
proof -
  have "takeWhile (\<lambda>l. l \<noteq> separator_line) (rev after @ separator_line # rev pre)
      = rev after"
    using assms by (intro takeWhile_stop) simp_all
  then show ?thesis
    by (simp add: listing_lines_def)
qed

lemma is_digit_not_cr: "is_digit c \<Longrightarrow> c \<noteq> CHR 0x0D"
  by (auto simp: is_digit_def code_def)

lemma show_nat_no_cr: "CHR 0x0D \<notin> set (show_nat n)"
  using show_nat_digits[of n] is_digit_not_cr by (auto simp: list_all_iff)

lemma pad2_no_cr: "CHR 0x0D \<notin> set (pad2 n)"
  by (simp add: pad2_def show_nat_no_cr)

lemma strftime_long_no_cr: "CHR 0x0D \<notin> set (strftime_long t)"
  by (simp add: strftime_long_def show_nat_no_cr pad2_no_cr)

lemma entries_no_cr:
  assumes "\<forall>e\<in>set es. CHR 0x0D \<notin> set e"
  shows "CHR 0x0D \<notin> set (concat (map (\<lambda>(i, email). show_nat i @ ''. '' @ email @ newline)
    (enumerate k es)))"
  using assms
  by (induction es arbitrary: k) (auto simp: show_nat_no_cr newline_def)

lemma entry_not_separator: "show_nat i @ ''. '' @ e \<noteq> separator_line"
proof
  assume eq: "show_nat i @ ''. '' @ e = separator_line"
  have "show_nat i \<noteq> []" "list_all is_digit (show_nat i)"
    using show_nat_digits[of i] by simp_all
  then have "is_digit (hd (show_nat i @ ''. '' @ e))"
    by (cases "show_nat i") simp_all
  moreover have "\<not> is_digit (hd separator_line)"
    by (simp add: separator_line_def is_digit_def code_def)
  ultimately show False
    using eq by simp
qed

lemma parse_report_text:
  assumes "\<forall>e\<in>set emails. CHR 0x0A \<notin> set e \<and> CHR 0x0D \<notin> set e"
  shows "parse_report (universal_newlines (report_text input_file now2 emails)) = emails"
proof -
  let ?l1 = "''Email addresses extracted from: '' @ input_file"
  let ?l2 = "''Extraction date: '' @ strftime_long now2"
  let ?l3 = "''Total unique emails found: '' @ show_nat (length emails)"
  let ?body = "concat (map (\<lambda>(i, email). show_nat i @ ''. '' @ email @ newline)
      (enumerate 1 emails))"
  let ?rest = "?l2 @ CHR 0x0A # ?l3 @ CHR 0x0A # separator_line @ CHR 0x0A # [] @ CHR 0x0A # ?body"
  let ?entries = "map (\<lambda>(i, email). show_nat i @ ''. '' @ email) (enumerate 1 emails)"
  have nl: "\<forall>e\<in>set emails. CHR 0x0A \<notin> set e" and cr: "\<forall>e\<in>set emails. CHR 0x0D \<notin> set e"
    using assms by simp_all
  have n2: "CHR 0x0A \<notin> set ?l2" by (simp add: strftime_long_no_newline)
  have n3: "CHR 0x0A \<notin> set ?l3" by (simp add: show_nat_no_newline)
  have n4: "CHR 0x0A \<notin> set separator_line" by (simp add: separator_line_def)
  have n5: "CHR 0x0A \<notin> set ([] :: string)" by simp
  have r: "report_text input_file now2 emails = ?l1 @ CHR 0x0A # ?rest"
    by (simp add: report_text_def newline_def)
  have "CHR 0x0D \<notin> set ?rest"
    using entries_no_cr[OF cr, of 1]
    by (simp add: strftime_long_no_cr show_nat_no_cr separator_line_def)
  then have "universal_newlines ?rest = ?rest"
    by (rule universal_newlines_id)
  then obtain x where x: "universal_newlines (report_text input_file now2 emails)
      = x @ CHR 0x0A # ?rest"
    unfolding r using universal_newlines_line[of ?l1 ?rest] by auto
  have "split_on CHR 0x0A ?rest = ?l2 # ?l3 # separator_line # [] # split_on CHR 0x0A ?body"
    by (simp only: split_on_line[OF n2] split_on_line[OF n3] split_on_line[OF n4]
        split_on_line[OF n5])
  then have s: "split_on CHR 0x0A (universal_newlines (report_text input_file now2 emails)) =
      (split_on CHR 0x0A x @ [?l2, ?l3]) @ separator_line # ([] # ?entries @ [[]])"
    unfolding x split_on_append_line using split_on_entries[OF nl, of 1] by simp
  have "\<forall>l\<in>set ([] # ?entries @ [[]]). l \<noteq> separator_line"
    using entry_not_separator by (auto simp: separator_line_def)
  then have l: "listing_lines (split_on CHR 0x0A
      (universal_newlines (report_text input_file now2 emails))) = [] # ?entries @ [[]]"
    unfolding s by (rule listing_lines_after)
  have h: "List.map_filter parse_enumerated_line [[]] = []"
    by (simp add: List.map_filter_simps parse_enumerated_line_None)
  have "List.map_filter parse_enumerated_line ([] # ?entries @ [[]])
      = List.map_filter parse_enumerated_line [[]] @
        List.map_filter parse_enumerated_line ?entries @
        List.map_filter parse_enumerated_line [[]]"
    by (simp only: map_filter_append[symmetric] append_Cons append_Nil)
  then show ?thesis
    unfolding parse_report_def l by (simp only: h parse_entries append_Nil append_Nil2)
qed

section \<open>Facts about the file system\<close>

lemma map_of_filter_not_below:
  "map_of (filter (\<lambda>e. \<not> prefix p (fst e)) fs) q = (if prefix p q then None else map_of fs q)"
  by (induction fs) auto

lemma map_of_create_node:
  "map_of (create_node p n fs) q =
     (if q = p then Some n else if prefix p q then None else map_of fs q)"
  by (auto simp: create_node_def map_add_def map_of_filter_not_below split: option.splits)

lemma map_of_replace_node:
  "map_of (replace_node p n fs) q =
     (if q = p then map_option (\<lambda>_. n) (map_of fs p) else map_of fs q)"
  unfolding replace_node_def by (induction fs) auto

lemma node_at_def2:
  "node_at fs p =
     (if is_anchor p then Some Dir
      else if \<forall>k<length p. dir_entry fs (take k p) then map_of fs p else None)"
  by (auto simp: node_at_def list_all_iff)

lemma node_at_cong:
  assumes "\<And>k. k \<le> length p \<Longrightarrow> map_of fs' (take k p) = map_of fs (take k p)"
  shows "node_at fs' p = node_at fs p"
proof -
  have "dir_entry fs' (take k p) = dir_entry fs (take k p)" if "k < length p" for k
    using assms[of k] that by (simp add: dir_entry_def)
  moreover have "map_of fs' p = map_of fs p"
    using assms[of "length p"] by simp
  ultimately have "(\<forall>k<length p. dir_entry fs' (take k p)) = (\<forall>k<length p. dir_entry fs (take k p))"
    "map_of fs' p = map_of fs p"
    by auto
  then show ?thesis
    unfolding node_at_def2 by (simp only:)
qed

lemma is_anchor_cases: "is_anchor p \<longleftrightarrow> p = [] \<or> p = [''/''] \<or> p = [''//'']"
  by (cases p) (auto simp: is_anchor_def has_root_def)

lemma parent_not_anchor: "\<not> is_anchor p \<Longrightarrow> parent p = butlast p"
  by (auto simp: parent_def is_anchor_def)

lemma node_at_Dir_entry: "node_at fs q = Some Dir \<Longrightarrow> dir_entry fs q"
  by (auto simp: node_at_def2 dir_entry_def split: if_splits)

lemma ancestors_are_dirs:
  assumes "node_at fs (parent p) = Some Dir" "\<not> is_anchor p" "k < length p"
  shows "dir_entry fs (take k p)"
proof -
  have par: "parent p = butlast p"
    using assms(2) by (rule parent_not_anchor)
  have pne: "p \<noteq> []"
    using assms(2) by (auto simp: is_anchor_def)
  show ?thesis
  proof (cases "k = length p - 1")
    case True
    then have "take k p = butlast p"
      by (simp add: butlast_conv_take)
    with assms(1) par show ?thesis
      by (simp add: node_at_Dir_entry)
  next
    case False
    with assms(3) have k: "k < length (butlast p)"
      by simp
    then have tk: "take k p = take k (butlast p)"
      by (simp add: take_butlast)
    show ?thesis
    proof (cases "is_anchor (butlast p)")
      case True
      then have "length (butlast p) \<le> 1"
        by (auto simp: is_anchor_cases simp del: length_butlast)
      with k have "k = 0"
        by linarith
      then have "take k (butlast p) = []"
        by simp
      then show ?thesis
        by (simp add: tk dir_entry_def is_anchor_def)
    next
      case False
      with assms(1) par k have "dir_entry fs (take k (butlast p))"
        by (auto simp: node_at_def2 split: if_splits)
      then show ?thesis
        by (simp add: tk)
    qed
  qed
qed

lemma node_at_None_not_anchor: "node_at fs p = None \<Longrightarrow> \<not> is_anchor p"
  by (auto simp: node_at_def)

lemma take_not_extended: "k < length p \<Longrightarrow> \<not> prefix p (take k p)"
  by (auto dest: prefix_length_le)

lemma node_at_create_node:
  assumes "node_at fs p = None" "node_at fs (parent p) = Some Dir"
  shows "node_at (create_node p n fs) p = Some n"
proof -
  have na: "\<not> is_anchor p"
    using assms(1) by (rule node_at_None_not_anchor)
  have "dir_entry (create_node p n fs) (take k p)" if "k < length p" for k
  proof -
    have "dir_entry fs (take k p)"
      using assms(2) na that by (rule ancestors_are_dirs)
    moreover have "take k p \<noteq> p" "\<not> prefix p (take k p)"
      using that take_not_extended[OF that] by auto
    ultimately show ?thesis
      by (simp add: dir_entry_def map_of_create_node)
  qed
  then show ?thesis
    using na by (simp add: node_at_def2 map_of_create_node)
qed

lemma node_at_replace_node:
  assumes "node_at fs p = Some (File old)"
  shows "node_at (replace_node p n fs) p = Some n"
proof -
  have na: "\<not> is_anchor p"
    using assms by (auto simp: node_at_def)
  then have all: "\<forall>k<length p. dir_entry fs (take k p)" and m: "map_of fs p = Some (File old)"
    using assms by (auto simp: node_at_def2 split: if_splits)
  have "dir_entry (replace_node p n fs) (take k p)" if "k < length p" for k
  proof -
    have "take k p \<noteq> p"
      using that by (metis length_take min.absorb2 nat_less_le)
    then show ?thesis
      using all that by (simp add: dir_entry_def map_of_replace_node)
  qed
  then show ?thesis
    using na m by (simp add: node_at_def2 map_of_replace_node)
qed

lemma node_at_below_unchanged:
  assumes "\<And>q. length q < length p \<Longrightarrow> map_of fs' q = map_of fs q" and "k < length p"
  shows "node_at fs' (take k p) = node_at fs (take k p)"
proof (rule node_at_cong)
  fix j
  have "length (take j (take k p)) < length p"
    using assms(2) by simp
  then show "map_of fs' (take j (take k p)) = map_of fs (take j (take k p))"
    by (rule assms(1))
qed

lemma access_error_cong:
  assumes "\<And>q. length q < length p \<Longrightarrow> map_of fs' q = map_of fs q"
  shows "access_error fs' p = access_error fs p"
proof -
  have "long_name_hit fs' p = long_name_hit fs p"
    using node_at_below_unchanged[of p fs' fs, OF assms]
    by (simp add: long_name_hit_def list_ex_iff)
  then show ?thesis
    by (simp add: access_error_def)
qed

lemma shorter_not_below: "length q < length p \<Longrightarrow> q \<noteq> p \<and> \<not> prefix p q"
  by (auto dest: prefix_length_le)

lemma access_error_create_node: "access_error (create_node p n fs) p = access_error fs p"
  by (rule access_error_cong) (simp add: map_of_create_node shorter_not_below)

lemma access_error_replace_node: "access_error (replace_node p n fs) p = access_error fs p"
  by (rule access_error_cong) (simp add: map_of_replace_node shorter_not_below)

lemma write_text_node:
  "write_text fs p content = Inr fs' \<Longrightarrow>
     access_error fs' p = None \<and> node_at fs' p = Some (File content)"
  by (auto simp: write_text_def node_at_create_node node_at_replace_node
      access_error_create_node access_error_replace_node
      split: option.splits node.splits)

lemma write_text_read:
  "write_text fs p content = Inr fs' \<Longrightarrow> read_text fs' p = Inr (universal_newlines content)"
  using write_text_node[of fs p content fs'] by (simp add: read_text_def)

lemma os_mkdir_is_dir: "os_mkdir fs p = Inr fs' \<Longrightarrow> path_is_dir fs' p = Inr True"
  by (auto simp: os_mkdir_def path_is_dir_def node_at_create_node access_error_create_node
      split: option.splits node.splits)

lemma exist_ok_check_is_dir:
  "exist_ok_check fs p e = (fs', None) \<Longrightarrow> fs' = fs \<and> path_is_dir fs p = Inr True"
  by (auto simp: exist_ok_check_def split: sum.splits bool.splits)

lemma mkdir_exist_ok_is_dir: "mkdir_exist_ok fs p = (fs', None) \<Longrightarrow> path_is_dir fs' p = Inr True"
  by (auto simp: mkdir_exist_ok_def os_mkdir_is_dir dest: exist_ok_check_is_dir
      split: sum.splits if_splits)

lemma path_mkdir_is_dir: "path_mkdir fs p = (fs', None) \<Longrightarrow> path_is_dir fs' p = Inr True"
  by (subst (asm) path_mkdir.simps)
    (auto simp: os_mkdir_is_dir mkdir_exist_ok_is_dir dest: exist_ok_check_is_dir
      split: sum.splits if_splits prod.splits option.splits)

lemma read_text_exists: "read_text fs p = Inr content \<Longrightarrow> path_exists fs p = Inr True"
  by (auto simp: read_text_def path_exists_def split: option.splits node.splits)

section \<open>Properties of extract\_emails\_from\_text\<close>

lemma files_print_line [simp]: "files (print_line msg w) = files w"
  by (simp add: print_line_def)

lemma requests_print_line [simp]: "requests_sent (print_line msg w) = requests_sent w"
  by (simp add: print_line_def)

lemma files_fold_print:
  "files (fold (\<lambda>(i, email). print_line (f i email)) xs w) = files w"
  by (induction xs arbitrary: w) auto

lemma set_first_occurrences: "set (first_occurrences raw) \<subseteq> set raw"
  by (auto simp: first_occurrences_def)

lemma set_dedupe: "set (dedupe raw) \<subseteq> set raw"
  by (simp add: dedupe_first_occurrences set_first_occurrences)

lemma class_not_cr:
  "local_class c \<or> domain_class c \<or> tld_class c \<or> c = CHR ''@'' \<Longrightarrow> c \<noteq> CHR 0x0D"
  by (auto simp: local_class_def domain_class_def tld_class_def is_lower_def is_upper_def
      is_digit_def code_def)

lemma findall_email_no_cr:
  "e \<in> set (findall email_pattern text) \<Longrightarrow> CHR 0x0D \<notin> set e"
  using findall_email_shape email_shape_chars class_not_cr by blast

lemma path_exists_cases:
  obtains (refused) e where "path_exists fs p = Inl e" "kind_of e = FileNameTooLong"
  | (absent) "path_exists fs p = Inr False"
  | (present) "path_exists fs p = Inr True" "node_at fs p \<noteq> None"
  by (cases "path_exists fs p")
    (auto simp: path_exists_def access_error_def os_error_def split: option.splits if_splits)

lemma extract_check_failed:
  assumes "path_exists (files w) (Path input_file) = Inl e"
  shows "extract_emails_from_text now1 now2 input_file output_file w = (w, Inl e)"
  using assms by (simp add: extract_emails_from_text_def)

lemma extract_missing_input:
  assumes "path_exists (files w) (Path input_file) = Inr False"
  shows "extract_emails_from_text now1 now2 input_file output_file w =
    (print_line (''Error: Input file '' @ [CHR 0x27] @ input_file @ [CHR 0x27] @
       '' does not exist.'') w, Inr ([], None))"
  using assms by (simp add: extract_emails_from_text_def)

lemma extract_no_match:
  assumes "read_text (files w) (Path input_file) = Inr content"
    and "findall email_pattern content = []"
  shows "extract_emails_from_text now1 now2 input_file output_file w =
    (print_line ''No email addresses found in the file.''
       (print_line (''Found '' @ show_nat 0 @ '' email addresses ('' @ show_nat 0 @ '' unique)'')
          (print_line (''Reading file: '' @ input_file) w)),
     Inr ([], Some (str_path (output_path_of now1 input_file output_file))))"
proof -
  have "path_exists (files w) (Path input_file) = Inr True"
    using assms(1) by (rule read_text_exists)
  then show ?thesis
    using assms by (simp add: extract_emails_from_text_def Let_def dedupe_Nil)
qed

lemma extract_cases:
  assumes "extract_emails_from_text now1 now2 input_file output_file w = (w', Inr (emails, p))"
    and "emails \<noteq> []"
  obtains content fs3 fs4 where
    "read_text (files w) (Path input_file) = Inr content"
    "emails = dedupe (findall email_pattern content)"
    "write_text fs3 (output_path_of now1 input_file output_file)
       (report_text input_file now2 emails) = Inr fs4"
    "files w' = fs4"
    "p = Some (str_path (output_path_of now1 input_file output_file))"
proof (cases "files w" "Path input_file" rule: path_exists_cases)
  case (refused e)
  with assms show ?thesis
    by (simp add: extract_emails_from_text_def)
next
  case absent
  with assms show ?thesis
    by (simp add: extract_emails_from_text_def)
next
  case present
  note True = present(1)
  show ?thesis
  proof (cases "read_text (files w) (Path input_file)")
    case (Inl e)
    with True assms show ?thesis
      by (simp add: extract_emails_from_text_def Let_def processing_error_def)
  next
    case (Inr content)
    let ?emails = "dedupe (findall email_pattern content)"
    let ?out = "output_path_of now1 input_file output_file"
    show ?thesis
    proof (cases "?emails = []")
      case True
      with present(1) Inr assms show ?thesis
        by (simp add: extract_emails_from_text_def Let_def)
    next
      case ne: False
      obtain fs3 r where mk: "path_mkdir (files w) (parent ?out) = (fs3, r)"
        by (cases "path_mkdir (files w) (parent ?out)")
      show ?thesis
      proof (cases r)
        case (Some e)
        with True Inr ne mk assms show ?thesis
          by (simp add: extract_emails_from_text_def Let_def processing_error_def)
      next
        case None
        show ?thesis
        proof (cases "write_text fs3 ?out (report_text input_file now2 ?emails)")
          case (Inl e)
          with True Inr ne mk None assms show ?thesis
            by (simp add: extract_emails_from_text_def Let_def processing_error_def)
        next
          case wr: (Inr fs4)
          from True Inr ne mk None wr assms(1)
          have "emails = ?emails" "files w' = fs4" "p = Some (str_path ?out)"
            by (auto simp: extract_emails_from_text_def Let_def files_fold_print)
          with Inr wr show ?thesis
            by (intro that[of content fs3 fs4]) simp_all
        qed
      qed
    qed
  qed
qed

text \<open>
  Claim C6, as amended. When the input path names nothing in the file system, one of two
  things happens. Either the existence check answers that the path is absent: then
  \<open>extract_emails_from_text\<close> returns the empty list and no output path, the file system and
  the requests are unchanged, and the only effect is the one line printed to the console.
  Or the existence check itself fails, because the system refuses the path as too long: then
  the error leaves the function, since the check stands before the \<^verbatim>\<open>try\<close> block, and
  nothing at all has changed. In both cases the call stops at the check, before the file is
  opened and before any matching.
\<close>

theorem missing_input_returns_empty:
  assumes "node_at (files w) (Path input_file) = None"
  shows "(path_exists (files w) (Path input_file) = Inr False \<and>
      (\<exists>w'. extract_emails_from_text now1 now2 input_file output_file w = (w', Inr ([], None)) \<and>
         files w' = files w \<and> requests_sent w' = requests_sent w \<and>
         console w' = console w @
           [''Error: Input file '' @ [CHR 0x27] @ input_file @ [CHR 0x27] @
            '' does not exist.''])) \<or>
    (\<exists>e. path_exists (files w) (Path input_file) = Inl e \<and> kind_of e = FileNameTooLong \<and>
       extract_emails_from_text now1 now2 input_file output_file w = (w, Inl e))"
proof (cases "files w" "Path input_file" rule: path_exists_cases)
  case (refused e)
  then show ?thesis
    by (simp add: extract_check_failed)
next
  case absent
  then show ?thesis
    by (simp add: extract_missing_input print_line_def)
next
  case present
  with assms show ?thesis
    by simp
qed

theorem missing_input_returns_empty_witness:
  "node_at [([''data''], Dir)] (Path ''data/missing.txt'') = None \<and>
   path_exists [([''data''], Dir)] (Path ''data/missing.txt'') = Inr False \<and>
   snd (extract_emails_from_text
     \<lparr>year = 2024, month = 11, day = 2, hour = 3, minute = 4, second = 5\<rparr>
     \<lparr>year = 2024, month = 11, day = 2, hour = 3, minute = 4, second = 6\<rparr>
     ''data/missing.txt'' None
     \<lparr>files = [([''data''], Dir)], console = [], requests_sent = []\<rparr>) = Inr ([], None)"
proof -
  have h: "node_at (files \<lparr>files = [([''data''], Dir)], console = [], requests_sent = []\<rparr>)
      (Path ''data/missing.txt'') = None"
    by code_simp
  have a: "path_exists [([''data''], Dir)] (Path ''data/missing.txt'') = Inr False"
    by code_simp
  from missing_input_returns_empty[OF h,
      of "\<lparr>year = 2024, month = 11, day = 2, hour = 3, minute = 4, second = 5\<rparr>"
         "\<lparr>year = 2024, month = 11, day = 2, hour = 3, minute = 4, second = 6\<rparr>" None]
  have "snd (extract_emails_from_text
      \<lparr>year = 2024, month = 11, day = 2, hour = 3, minute = 4, second = 5\<rparr>
      \<lparr>year = 2024, month = 11, day = 2, hour = 3, minute = 4, second = 6\<rparr>
      ''data/missing.txt'' None
      \<lparr>files = [([''data''], Dir)], console = [], requests_sent = []\<rparr>) = Inr ([], None)"
    using a by auto
  with h a show ?thesis
    by simp
qed

text \<open>
  The claim as the specification states it fails: a name of 256 letters names nothing, in
  any directory, and the call does not return the empty list and a null path; the existence
  check raises \<^verbatim>\<open>OSError\<close> 36 (file name too long), which reaches the caller.
\<close>

theorem missing_input_raises_counterexample:
  "node_at [] (Path (replicate 256 CHR ''a'')) = None \<and>
   extract_emails_from_text
     \<lparr>year = 2024, month = 11, day = 2, hour = 3, minute = 4, second = 5\<rparr>
     \<lparr>year = 2024, month = 11, day = 2, hour = 3, minute = 4, second = 6\<rparr>
     (replicate 256 CHR ''a'') None
     \<lparr>files = [], console = [], requests_sent = []\<rparr>
   = (\<lparr>files = [], console = [], requests_sent = []\<rparr>,
      Inl (Exn FileNameTooLong
        (''[Errno 36] File name too long: '' @ [CHR 0x27] @ replicate 256 CHR ''a'' @
         [CHR 0x27])))"
  by code_simp

text \<open>
  Claim C1, as amended. When the input file can be read and its content has no match, the
  call returns the empty list together with the output path it computed (the path given, or
  the generated one), not a null path; the file system is unchanged, so no report is written.
\<close>

theorem no_match_returns_output_path:
  assumes "read_text (files w) (Path input_file) = Inr content"
    and "findall email_pattern content = []"
  shows "\<exists>w'. extract_emails_from_text now1 now2 input_file output_file w =
      (w', Inr ([], Some (str_path (output_path_of now1 input_file output_file)))) \<and>
    files w' = files w"
  using extract_no_match[OF assms] by simp

theorem no_match_returns_output_path_witness:
  "read_text [([''notes.txt''], File ''nothing to see here'')] (Path ''notes.txt'')
     = Inr ''nothing to see here'' \<and>
   findall email_pattern ''nothing to see here'' = [] \<and>
   snd (extract_emails_from_text
     \<lparr>year = 2024, month = 11, day = 2, hour = 3, minute = 4, second = 5\<rparr>
     \<lparr>year = 2024, month = 11, day = 2, hour = 3, minute = 4, second = 6\<rparr>
     ''notes.txt'' (Some ''out/emails.txt'')
     \<lparr>files = [([''notes.txt''], File ''nothing to see here'')], console = [],
      requests_sent = []\<rparr>) = Inr ([], Some ''out/emails.txt'')"
proof -
  have h1: "read_text (files \<lparr>files = [([''notes.txt''], File ''nothing to see here'')],
      console = [], requests_sent = []\<rparr>) (Path ''notes.txt'') = Inr ''nothing to see here''"
    by code_simp
  have h2: "findall email_pattern ''nothing to see here'' = []"
    by code_simp
  have h3: "str_path (output_path_of
      \<lparr>year = 2024, month = 11, day = 2, hour = 3, minute = 4, second = 5\<rparr>
      ''notes.txt'' (Some ''out/emails.txt'')) = ''out/emails.txt''"
    by code_simp
  from no_match_returns_output_path[OF h1 h2,
      of "\<lparr>year = 2024, month = 11, day = 2, hour = 3, minute = 4, second = 5\<rparr>"
         "\<lparr>year = 2024, month = 11, day = 2, hour = 3, minute = 4, second = 6\<rparr>"
         "Some ''out/emails.txt''"]
  obtain w' where "extract_emails_from_text
      \<lparr>year = 2024, month = 11, day = 2, hour = 3, minute = 4, second = 5\<rparr>
      \<lparr>year = 2024, month = 11, day = 2, hour = 3, minute = 4, second = 6\<rparr>
      ''notes.txt'' (Some ''out/emails.txt'')
      \<lparr>files = [([''notes.txt''], File ''nothing to see here'')], console = [],
       requests_sent = []\<rparr>
      = (w', Inr ([], Some (str_path (output_path_of
          \<lparr>year = 2024, month = 11, day = 2, hour = 3, minute = 4, second = 5\<rparr>
          ''notes.txt'' (Some ''out/emails.txt'')))))"
    by blast
  with h1 h2 h3 show ?thesis
    by simp
qed

text \<open>
  The claim as the specification states it fails: for a readable file without a match the
  returned output path is the generated path, not null.
\<close>

theorem no_match_null_path_counterexample:
  "read_text [([''notes.txt''], File ''nothing to see here'')] (Path ''notes.txt'')
     = Inr ''nothing to see here'' \<and>
   findall email_pattern ''nothing to see here'' = [] \<and>
   snd (extract_emails_from_text
     \<lparr>year = 2024, month = 11, day = 2, hour = 3, minute = 4, second = 5\<rparr>
     \<lparr>year = 2024, month = 11, day = 2, hour = 3, minute = 4, second = 6\<rparr>
     ''notes.txt'' None
     \<lparr>files = [([''notes.txt''], File ''nothing to see here'')], console = [],
      requests_sent = []\<rparr>) = Inr ([], Some ''extracted_emails_20241102_030405.txt'')"
  by code_simp

text \<open>
  Claim C5. The list that \<open>extract_emails_from_text\<close> returns never holds two entries that
  are equal after lower-casing. When it is not empty it is the list of first occurrences of
  the raw discovery sequence of the input file's content: each entry in the surface form in
  which it first occurred, in order of first occurrence.
\<close>

theorem extracted_emails_unique:
  assumes "extract_emails_from_text now1 now2 input_file output_file w = (w', Inr (emails, p))"
  shows "distinct (map lower emails) \<and>
    (emails = [] \<or>
     (\<exists>content. read_text (files w) (Path input_file) = Inr content \<and>
        emails = first_occurrences (findall email_pattern content)))"
proof (cases "emails = []")
  case True
  then show ?thesis by simp
next
  case False
  with assms obtain content where "read_text (files w) (Path input_file) = Inr content"
    "emails = dedupe (findall email_pattern content)"
    by (rule extract_cases)
  then show ?thesis
    using dedupe_distinct[of "findall email_pattern content"]
    by (auto simp: dedupe_first_occurrences)
qed

theorem extracted_emails_unique_witness:
  "snd (extract_emails_from_text
     \<lparr>year = 2024, month = 11, day = 2, hour = 3, minute = 4, second = 5\<rparr>
     \<lparr>year = 2024, month = 11, day = 2, hour = 3, minute = 4, second = 6\<rparr>
     ''in.txt'' (Some ''out.txt'')
     \<lparr>files = [([''in.txt''], File ''contact a@b.com or A@B.COM today'')], console = [],
      requests_sent = []\<rparr>) = Inr ([''a@b.com''], Some ''out.txt'') \<and>
   distinct (map lower [''a@b.com''])"
proof -
  let ?r = "extract_emails_from_text
     \<lparr>year = 2024, month = 11, day = 2, hour = 3, minute = 4, second = 5\<rparr>
     \<lparr>year = 2024, month = 11, day = 2, hour = 3, minute = 4, second = 6\<rparr>
     ''in.txt'' (Some ''out.txt'')
     \<lparr>files = [([''in.txt''], File ''contact a@b.com or A@B.COM today'')], console = [],
      requests_sent = []\<rparr>"
  have e: "snd ?r = Inr ([''a@b.com''], Some ''out.txt'')"
    by code_simp
  then have "?r = (fst ?r, Inr ([''a@b.com''], Some ''out.txt''))"
    by (simp add: prod_eq_iff)
  then have "distinct (map lower [''a@b.com''])"
    using extracted_emails_unique by blast
  with e show ?thesis
    by simp
qed

text \<open>
  Claim C7. When the call returns a non-empty list, the report is in the file system at the
  output path, and reading it back and re-parsing its enumerated lines gives the returned
  list: the same items in the same order. This holds for every input path, also one that
  holds line breaks and so spreads the first header line over several lines.
\<close>

theorem report_round_trip:
  assumes "extract_emails_from_text now1 now2 input_file output_file w = (w', Inr (emails, p))"
    and "emails \<noteq> []"
  shows "\<exists>content.
    read_text (files w') (output_path_of now1 input_file output_file) = Inr content \<and>
    parse_report content = emails \<and>
    p = Some (str_path (output_path_of now1 input_file output_file))"
proof -
  from assms obtain content fs3 fs4 where
    rd: "read_text (files w) (Path input_file) = Inr content"
    and em: "emails = dedupe (findall email_pattern content)"
    and wr: "write_text fs3 (output_path_of now1 input_file output_file)
       (report_text input_file now2 emails) = Inr fs4"
    and fs: "files w' = fs4"
    and p: "p = Some (str_path (output_path_of now1 input_file output_file))"
    by (rule extract_cases)
  have "\<forall>e\<in>set emails. CHR 0x0A \<notin> set e \<and> CHR 0x0D \<notin> set e"
    using em set_dedupe findall_email_no_newline findall_email_no_cr by blast
  then have "parse_report (universal_newlines (report_text input_file now2 emails)) = emails"
    by (rule parse_report_text)
  moreover have "read_text (files w') (output_path_of now1 input_file output_file)
      = Inr (universal_newlines (report_text input_file now2 emails))"
    using wr fs by (simp add: write_text_read)
  ultimately show ?thesis
    using p by simp
qed

theorem report_round_trip_witness:
  "snd (extract_emails_from_text
     \<lparr>year = 2024, month = 11, day = 2, hour = 3, minute = 4, second = 5\<rparr>
     \<lparr>year = 2024, month = 11, day = 2, hour = 3, minute = 4, second = 6\<rparr>
     (''in'' @ [CHR 0x0A] @ ''7. zzz'') (Some ''out.txt'')
     \<lparr>files = [([''in'' @ [CHR 0x0A] @ ''7. zzz''], File ''mail a@b.co, c@d.org'')],
      console = [], requests_sent = []\<rparr>) = Inr ([''a@b.co'', ''c@d.org''], Some ''out.txt'') \<and>
   map_sum id parse_report (read_text (files (fst (extract_emails_from_text
     \<lparr>year = 2024, month = 11, day = 2, hour = 3, minute = 4, second = 5\<rparr>
     \<lparr>year = 2024, month = 11, day = 2, hour = 3, minute = 4, second = 6\<rparr>
     (''in'' @ [CHR 0x0A] @ ''7. zzz'') (Some ''out.txt'')
     \<lparr>files = [([''in'' @ [CHR 0x0A] @ ''7. zzz''], File ''mail a@b.co, c@d.org'')],
      console = [], requests_sent = []\<rparr>))) (Path ''out.txt''))
     = Inr [''a@b.co'', ''c@d.org'']"
proof -
  let ?r = "extract_emails_from_text
     \<lparr>year = 2024, month = 11, day = 2, hour = 3, minute = 4, second = 5\<rparr>
     \<lparr>year = 2024, month = 11, day = 2, hour = 3, minute = 4, second = 6\<rparr>
     (''in'' @ [CHR 0x0A] @ ''7. zzz'') (Some ''out.txt'')
     \<lparr>files = [([''in'' @ [CHR 0x0A] @ ''7. zzz''], File ''mail a@b.co, c@d.org'')],
      console = [], requests_sent = []\<rparr>"
  have e: "snd ?r = Inr ([''a@b.co'', ''c@d.org''], Some ''out.txt'')"
    by code_simp
  have o: "output_path_of
     \<lparr>year = 2024, month = 11, day = 2, hour = 3, minute = 4, second = 5\<rparr>
     (''in'' @ [CHR 0x0A] @ ''7. zzz'') (Some ''out.txt'') = Path ''out.txt''"
    by (simp add: output_path_of_def)
  have h2: "?r = (fst ?r, Inr ([''a@b.co'', ''c@d.org''], Some ''out.txt''))"
    using e by (simp add: prod_eq_iff)
  have h3: "[''a@b.co'', ''c@d.org''] \<noteq> []"
    by simp
  from report_round_trip[OF h2 h3] obtain content where
    "read_text (files (fst ?r)) (Path ''out.txt'') = Inr content"
    "parse_report content = [''a@b.co'', ''c@d.org'']"
    unfolding o by blast
  with e show ?thesis
    by simp
qed

section \<open>Properties of scrape\_webpage\_title\<close>

lemma scrape_invalid_url:
  assumes "urlparse env url = Inr parsed" "scheme parsed = [] \<or> netloc parsed = []"
  shows "scrape_webpage_title env now1 now2 url output_file timeout w =
    (print_line (''Error: Invalid URL format: '' @ url) w, None, None, None)"
  using assms by (auto simp: scrape_webpage_title_def scrape_body_def)

lemma scrape_transport_error:
  assumes "urlparse env url = Inr parsed" "scheme parsed \<noteq> []" "netloc parsed \<noteq> []"
    and "http_get env url timeout = Inl e"
  shows "\<exists>w'. scrape_webpage_title env now1 now2 url output_file timeout w =
      (w', None, None, None) \<and>
    after_request w url timeout
      (if is_Timeout (kind_of e)
       then ''Error: Request timed out after '' @ show_int timeout @ '' seconds''
       else if is_ConnectionError (kind_of e)
       then ''Error: Connection failed. Check your internet connection or URL.''
       else if is_RequestException (kind_of e) then ''Error: Request failed - '' @ str_exn e
       else ''Unexpected error: '' @ str_exn e) w'"
  using assms
  by (simp add: scrape_webpage_title_def scrape_body_def Let_def print_line_def
      after_request_def)

lemma scrape_bad_status:
  assumes "urlparse env url = Inr parsed" "scheme parsed \<noteq> []" "netloc parsed \<noteq> []"
    and "http_get env url timeout = Inr resp" "status_code resp \<noteq> 200"
  shows "\<exists>w'. scrape_webpage_title env now1 now2 url output_file timeout w =
      (w', None, None, Some (status_code resp)) \<and>
    after_request w url timeout
      (''Error: HTTP '' @ show_nat (status_code resp) @ '' - Failed to fetch the webpage'') w'"
  using assms
  by (simp add: scrape_webpage_title_def scrape_body_def Let_def print_line_def
      after_request_def)

lemma scrape_no_title:
  assumes "urlparse env url = Inr parsed" "scheme parsed \<noteq> []" "netloc parsed \<noteq> []"
    and "http_get env url timeout = Inr resp" "status_code resp = 200"
    and "title_search (page_text resp) = None"
  shows "\<exists>w'. scrape_webpage_title env now1 now2 url output_file timeout w =
      (w', None, None, Some 200) \<and>
    after_request w url timeout ''Error: No title tag found in the webpage'' w'"
  using assms
  by (simp add: scrape_webpage_title_def scrape_body_def Let_def print_line_def
      after_request_def)

lemma failure_lines_distinct:
  "distinct
     [''Error: Request timed out after '' @ a @ '' seconds'',
      ''Error: Connection failed. Check your internet connection or URL.'',
      ''Error: Request failed - '' @ b,
      ''Error: HTTP '' @ c @ '' - Failed to fetch the webpage'',
      ''Error: No title tag found in the webpage'']"
  by simp

text \<open>
  Claim C8. For a URL that parses with a scheme and a network location, whatever the time
  limit: each of the five ways the fetch can fail ends the call with a returned triple whose
  title and output path are null, not with an exception. A timeout, a connection failure and
  any other request exception give a null status; a status other than 200 and a page without
  a title give the status received. In every case the request has been sent once, the file
  system is unchanged, and one line has been printed after the line that announces the
  request; the five lines differ from each other, whatever the time limit, the message of
  the exception and the status are. (An exception that is both a timeout and a connection error
  counts as a timeout: that handler comes first.)
\<close>

theorem failures_surface_as_triples:
  assumes "urlparse env url = Inr parsed" "scheme parsed \<noteq> []" "netloc parsed \<noteq> []"
  shows "(\<forall>e. http_get env url timeout = Inl e \<and> is_Timeout (kind_of e) \<longrightarrow>
      (\<exists>w'. scrape_webpage_title env now1 now2 url output_file timeout w =
           (w', None, None, None) \<and>
         after_request w url timeout
           (''Error: Request timed out after '' @ show_int timeout @ '' seconds'') w')) \<and>
    (\<forall>e. http_get env url timeout = Inl e \<and> \<not> is_Timeout (kind_of e) \<and>
        is_ConnectionError (kind_of e) \<longrightarrow>
      (\<exists>w'. scrape_webpage_title env now1 now2 url output_file timeout w =
           (w', None, None, None) \<and>
         after_request w url timeout
           ''Error: Connection failed. Check your internet connection or URL.'' w')) \<and>
    (\<forall>e. http_get env url timeout = Inl e \<and> \<not> is_Timeout (kind_of e) \<and>
        \<not> is_ConnectionError (kind_of e) \<and> is_RequestException (kind_of e) \<longrightarrow>
      (\<exists>w'. scrape_webpage_title env now1 now2 url output_file timeout w =
           (w', None, None, None) \<and>
         after_request w url timeout (''Error: Request failed - '' @ str_exn e) w')) \<and>
    (\<forall>resp. http_get env url timeout = Inr resp \<and> status_code resp \<noteq> 200 \<longrightarrow>
      (\<exists>w'. scrape_webpage_title env now1 now2 url output_file timeout w =
           (w', None, None, Some (status_code resp)) \<and>
         after_request w url timeout
           (''Error: HTTP '' @ show_nat (status_code resp) @
            '' - Failed to fetch the webpage'') w')) \<and>
    (\<forall>resp. http_get env url timeout = Inr resp \<and> status_code resp = 200 \<and>
        title_search (page_text resp) = None \<longrightarrow>
      (\<exists>w'. scrape_webpage_title env now1 now2 url output_file timeout w =
           (w', None, None, Some 200) \<and>
         after_request w url timeout ''Error: No title tag found in the webpage'' w')) \<and>
    (\<forall>msg status. distinct
       [''Error: Request timed out after '' @ show_int timeout @ '' seconds'',
        ''Error: Connection failed. Check your internet connection or URL.'',
        ''Error: Request failed - '' @ msg,
        ''Error: HTTP '' @ show_nat status @ '' - Failed to fetch the webpage'',
        ''Error: No title tag found in the webpage''])"
proof (intro conjI allI impI)
  fix e
  assume "http_get env url timeout = Inl e \<and> is_Timeout (kind_of e)"
  then show "\<exists>w'. scrape_webpage_title env now1 now2 url output_file timeout w =
       (w', None, None, None) \<and>
     after_request w url timeout
       (''Error: Request timed out after '' @ show_int timeout @ '' seconds'') w'"
    using scrape_transport_error[OF assms, of timeout e now1 now2 output_file w] by simp
next
  fix e
  assume "http_get env url timeout = Inl e \<and> \<not> is_Timeout (kind_of e) \<and>
    is_ConnectionError (kind_of e)"
  then show "\<exists>w'. scrape_webpage_title env now1 now2 url output_file timeout w =
       (w', None, None, None) \<and>
     after_request w url timeout
       ''Error: Connection failed. Check your internet connection or URL.'' w'"
    using scrape_transport_error[OF assms, of timeout e now1 now2 output_file w] by simp
next
  fix e
  assume "http_get env url timeout = Inl e \<and> \<not> is_Timeout (kind_of e) \<and>
    \<not> is_ConnectionError (kind_of e) \<and> is_RequestException (kind_of e)"
  then show "\<exists>w'. scrape_webpage_title env now1 now2 url output_file timeout w =
       (w', None, None, None) \<and>
     after_request w url timeout (''Error: Request failed - '' @ str_exn e) w'"
    using scrape_transport_error[OF assms, of timeout e now1 now2 output_file w] by simp
next
  fix resp
  assume "http_get env url timeout = Inr resp \<and> status_code resp \<noteq> 200"
  then show "\<exists>w'. scrape_webpage_title env now1 now2 url output_file timeout w =
       (w', None, None, Some (status_code resp)) \<and>
     after_request w url timeout
       (''Error: HTTP '' @ show_nat (status_code resp) @ '' - Failed to fetch the webpage'') w'"
    using scrape_bad_status[OF assms, of timeout resp now1 now2 output_file w] by simp
next
  fix resp
  assume "http_get env url timeout = Inr resp \<and> status_code resp = 200 \<and>
    title_search (page_text resp) = None"
  then show "\<exists>w'. scrape_webpage_title env now1 now2 url output_file timeout w =
       (w', None, None, Some 200) \<and>
     after_request w url timeout ''Error: No title tag found in the webpage'' w'"
    using scrape_no_title[OF assms, of timeout resp now1 now2 output_file w] by simp
next
  fix msg status
  show "distinct
     [''Error: Request timed out after '' @ show_int timeout @ '' seconds'',
      ''Error: Connection failed. Check your internet connection or URL.'',
      ''Error: Request failed - '' @ msg,
      ''Error: HTTP '' @ show_nat status @ '' - Failed to fetch the webpage'',
      ''Error: No title tag found in the webpage'']"
    by (rule failure_lines_distinct)
qed

theorem failures_surface_as_triples_witness:
  "snd (scrape_webpage_title
     (example_web ''https'' ''example.com'' (Inl (Exn ReadTimeout ''read timed out'')))
     \<lparr>year = 2024, month = 11, day = 2, hour = 3, minute = 4, second = 5\<rparr>
     \<lparr>year = 2024, month = 11, day = 2, hour = 3, minute = 4, second = 6\<rparr>
     ''https://example.com'' None 10
     \<lparr>files = [], console = [], requests_sent = []\<rparr>) = (None, None, None) \<and>
   snd (scrape_webpage_title
     (example_web ''https'' ''example.com'' (Inl (Exn RequestsConnectionError ''refused'')))
     \<lparr>year = 2024, month = 11, day = 2, hour = 3, minute = 4, second = 5\<rparr>
     \<lparr>year = 2024, month = 11, day = 2, hour = 3, minute = 4, second = 6\<rparr>
     ''https://example.com'' None 10
     \<lparr>files = [], console = [], requests_sent = []\<rparr>) = (None, None, None) \<and>
   snd (scrape_webpage_title
     (example_web ''https'' ''example.com''
        (Inl (Exn OtherRequestException ''too many redirects'')))
     \<lparr>year = 2024, month = 11, day = 2, hour = 3, minute = 4, second = 5\<rparr>
     \<lparr>year = 2024, month = 11, day = 2, hour = 3, minute = 4, second = 6\<rparr>
     ''https://example.com'' None 10
     \<lparr>files = [], console = [], requests_sent = []\<rparr>) = (None, None, None) \<and>
   snd (scrape_webpage_title
     (example_web ''https'' ''example.com'' (Inr \<lparr>status_code = 404, page_text = ''gone''\<rparr>))
     \<lparr>year = 2024, month = 11, day = 2, hour = 3, minute = 4, second = 5\<rparr>
     \<lparr>year = 2024, month = 11, day = 2, hour = 3, minute = 4, second = 6\<rparr>
     ''https://example.com'' None 10
     \<lparr>files = [], console = [], requests_sent = []\<rparr>) = (None, None, Some 404) \<and>
   snd (scrape_webpage_title
     (example_web ''https'' ''example.com''
        (Inr \<lparr>status_code = 200, page_text = ''<html><body>hello</body></html>''\<rparr>))
     \<lparr>year = 2024, month = 11, day = 2, hour = 3, minute = 4, second = 5\<rparr>
     \<lparr>year = 2024, month = 11, day = 2, hour = 3, minute = 4, second = 6\<rparr>
     ''https://example.com'' None 10
     \<lparr>files = [], console = [], requests_sent = []\<rparr>) = (None, None, Some 200)"
proof -
  let ?t1 = "\<lparr>year = 2024, month = 11, day = 2, hour = 3, minute = 4, second = 5\<rparr>"
  let ?t2 = "\<lparr>year = 2024, month = 11, day = 2, hour = 3, minute = 4, second = 6\<rparr>"
  let ?w = "\<lparr>files = [], console = [], requests_sent = []\<rparr>"
  let ?p = "\<lparr>scheme = ''https'', netloc = ''example.com''\<rparr>"
  let ?url = "''https://example.com''"
  have u: "urlparse (example_web ''https'' ''example.com'' outcome) ?url = Inr ?p" for outcome
    by (simp add: example_web_def)
  have g: "http_get (example_web ''https'' ''example.com'' outcome) ?url 10 = outcome"
    for outcome
    by (simp add: example_web_def)
  have s: "scheme ?p \<noteq> []" "netloc ?p \<noteq> []"
    by simp_all
  have nt: "title_search ''<html><body>hello</body></html>'' = None"
    by code_simp
  have "snd (scrape_webpage_title
      (example_web ''https'' ''example.com'' (Inl (Exn ReadTimeout ''read timed out'')))
      ?t1 ?t2 ?url None 10 ?w) = (None, None, None)"
    using failures_surface_as_triples[OF u s,
        of "Inl (Exn ReadTimeout ''read timed out'')" 10 ?t1 ?t2 None ?w]
    unfolding g by (auto simp: is_Timeout_def)
  moreover have "snd (scrape_webpage_title
      (example_web ''https'' ''example.com'' (Inl (Exn RequestsConnectionError ''refused'')))
      ?t1 ?t2 ?url None 10 ?w) = (None, None, None)"
    using failures_surface_as_triples[OF u s,
        of "Inl (Exn RequestsConnectionError ''refused'')" 10 ?t1 ?t2 None ?w]
    unfolding g by (auto simp: is_Timeout_def is_ConnectionError_def)
  moreover have "snd (scrape_webpage_title
      (example_web ''https'' ''example.com''
         (Inl (Exn OtherRequestException ''too many redirects'')))
      ?t1 ?t2 ?url None 10 ?w) = (None, None, None)"
    using failures_surface_as_triples[OF u s,
        of "Inl (Exn OtherRequestException ''too many redirects'')" 10 ?t1 ?t2 None ?w]
    unfolding g by (auto simp: is_Timeout_def is_ConnectionError_def is_RequestException_def)
  moreover have "snd (scrape_webpage_title
      (example_web ''https'' ''example.com'' (Inr \<lparr>status_code = 404, page_text = ''gone''\<rparr>))
      ?t1 ?t2 ?url None 10 ?w) = (None, None, Some 404)"
    using failures_surface_as_triples[OF u s,
        of "Inr \<lparr>status_code = 404, page_text = ''gone''\<rparr>" 10 ?t1 ?t2 None ?w]
    unfolding g by auto
  moreover have "snd (scrape_webpage_title
      (example_web ''https'' ''example.com''
         (Inr \<lparr>status_code = 200, page_text = ''<html><body>hello</body></html>''\<rparr>))
      ?t1 ?t2 ?url None 10 ?w) = (None, None, Some 200)"
    using failures_surface_as_triples[OF u s,
        of "Inr \<lparr>status_code = 200, page_text = ''<html><body>hello</body></html>''\<rparr>"
          10 ?t1 ?t2 None ?w] nt
    unfolding g by auto
  ultimately show ?thesis
    by (simp only: simp_thms)
qed

text \<open>
  Claim C9. When the parse of the URL lacks a scheme or a network location, the call returns
  three nulls at once: no request has been sent, the file system is unchanged, and the only
  effect is the one line printed to the console.
\<close>

theorem invalid_url_returns_nulls:
  assumes "urlparse env url = Inr parsed" and "scheme parsed = [] \<or> netloc parsed = []"
  shows "\<exists>w'. scrape_webpage_title env now1 now2 url output_file timeout w =
      (w', None, None, None) \<and>
    requests_sent w' = requests_sent w \<and> files w' = files w \<and>
    console w' = console w @ [''Error: Invalid URL format: '' @ url]"
  using scrape_invalid_url[OF assms] by (simp add: print_line_def)

theorem invalid_url_returns_nulls_witness:
  "scrape_webpage_title
     (example_web [] [] (Inr \<lparr>status_code = 200, page_text = ''<title>x</title>''\<rparr>))
     \<lparr>year = 2024, month = 11, day = 2, hour = 3, minute = 4, second = 5\<rparr>
     \<lparr>year = 2024, month = 11, day = 2, hour = 3, minute = 4, second = 6\<rparr>
     ''example.com'' None 10
     \<lparr>files = [], console = [], requests_sent = []\<rparr>
   = (\<lparr>files = [], console = [''Error: Invalid URL format: example.com''],
       requests_sent = []\<rparr>, None, None, None)"
proof -
  let ?env = "example_web [] [] (Inr \<lparr>status_code = 200, page_text = ''<title>x</title>''\<rparr>)"
  have u: "urlparse ?env ''example.com'' = Inr \<lparr>scheme = [], netloc = []\<rparr>"
    by (simp add: example_web_def)
  have s: "scheme \<lparr>scheme = [], netloc = []\<rparr> = [] \<or> netloc \<lparr>scheme = [], netloc = []\<rparr> = []"
    by simp
  from invalid_url_returns_nulls[OF u s,
      of "\<lparr>year = 2024, month = 11, day = 2, hour = 3, minute = 4, second = 5\<rparr>"
         "\<lparr>year = 2024, month = 11, day = 2, hour = 3, minute = 4, second = 6\<rparr>"
         None 10 "\<lparr>files = [], console = [], requests_sent = []\<rparr>"]
  obtain w' where r: "scrape_webpage_title ?env
       \<lparr>year = 2024, month = 11, day = 2, hour = 3, minute = 4, second = 5\<rparr>
       \<lparr>year = 2024, month = 11, day = 2, hour = 3, minute = 4, second = 6\<rparr>
       ''example.com'' None 10 \<lparr>files = [], console = [], requests_sent = []\<rparr>
       = (w', None, None, None)"
    and w: "requests_sent w' = []" "files w' = []"
      "console w' = [''Error: Invalid URL format: example.com'']"
    by auto
  from w have "w' = \<lparr>files = [], console = [''Error: Invalid URL format: example.com''],
      requests_sent = []\<rparr>"
    by (cases w') simp
  with r show ?thesis
    by simp
qed

end
